theory Spec2Isabelle
  imports Main
begin

section \<open>tsh: a tiny shell with job control (shell.c)\<close>

text \<open>
  The embedding follows \<^verbatim>\<open>shell.c\<close>. C \<^verbatim>\<open>int\<close> and \<^verbatim>\<open>pid_t\<close> values are
  modelled as \<open>int\<close>: job ids never leave the range 0..17 and process ids are what the
  operating system hands out, so no arithmetic of the program comes near an overflow.
  A C string is the list of its characters before the terminating NUL.
\<close>

subsection \<open>Manifest constants\<close>

definition MAXLINE_TSH :: nat where "MAXLINE_TSH = 1024"
definition MAXARGS :: nat where "MAXARGS = 128"
definition MAXJOBS :: nat where "MAXJOBS = 16"

definition UNDEF :: int where "UNDEF = 0"
definition FG :: int where "FG = 1"
definition BG :: int where "BG = 2"
definition ST :: int where "ST = 3"

subsection \<open>The job struct and the shell's global state\<close>

record job_t =
  pid :: int
  jid :: int
  state :: int
  cmdline :: string

text \<open>
  The globals \<^verbatim>\<open>job_list\<close>, \<^verbatim>\<open>nextjid\<close> and \<^verbatim>\<open>verbose\<close>, together with the
  trace of what the process has done to the outside: the text written to standard output
  (\<open>out\<close>), the messages sent to \<^verbatim>\<open>stderr\<close> and reported through \<^verbatim>\<open>unix_error\<close>
  (\<open>errs\<close>), the signals sent with \<^verbatim>\<open>kill\<close> (\<open>sent\<close>: the pid argument and the
  signal) and the listings written to files (\<open>files\<close>: name and text).
\<close>

datatype signal = SIGCONT | SIGINT | SIGTSTP

record shell =
  job_list :: "job_t list"
  nextjid :: int
  verbose :: bool
  out :: string
  errs :: "string list"
  sent :: "(int \<times> signal) list"
  files :: "(string \<times> string) list"

subsection \<open>Printing integers (\<^verbatim>\<open>%d\<close>, \<^verbatim>\<open>sio_putl\<close>)\<close>

definition digit_char :: "nat \<Rightarrow> char" where
  "digit_char d = char_of (48 + d)"

function nat_dec :: "nat \<Rightarrow> string" where
  "nat_dec n = (if n < 10 then [digit_char n] else nat_dec (n div 10) @ [digit_char (n mod 10)])"
  by pat_completeness auto
termination
  by (relation "measure (\<lambda>n. n)") auto

declare nat_dec.simps [simp del]

definition int_dec :: "int \<Rightarrow> string" where
  "int_dec i = (if i < 0 then CHR ''-'' # nat_dec (nat (- i)) else nat_dec (nat i))"

subsection \<open>Helper routines that manipulate the job list\<close>

text \<open>\<^verbatim>\<open>clearjob\<close>: the cleared slot.\<close>

definition clearjob :: "job_t \<Rightarrow> job_t" where
  "clearjob job = job\<lparr>pid := 0, jid := 0, state := UNDEF, cmdline := []\<rparr>"

text \<open>\<^verbatim>\<open>initjobs\<close>: \<^verbatim>\<open>for (i = 0; i < MAXJOBS; i++) clearjob(&job_list[i])\<close>.\<close>

function initjobs_loop :: "job_t list \<Rightarrow> nat \<Rightarrow> job_t list" where
  "initjobs_loop jl i =
     (if i < MAXJOBS then initjobs_loop (jl[i := clearjob (jl ! i)]) (Suc i) else jl)"
  by pat_completeness auto
termination
  by (relation "measure (\<lambda>(jl, i). MAXJOBS - i)") auto

declare initjobs_loop.simps [simp del]

definition initjobs :: "job_t list \<Rightarrow> job_t list" where
  "initjobs jl = initjobs_loop jl 0"

text \<open>
  The scan shared by the lookups:
  \<^verbatim>\<open>for (; i < MAXJOBS; i++) if (P(job_list[i])) return i;\<close>, with \<open>None\<close> when the
  loop runs off the end of the table.
\<close>

function scan_from :: "(job_t \<Rightarrow> bool) \<Rightarrow> job_t list \<Rightarrow> nat \<Rightarrow> nat option" where
  "scan_from P jl i =
     (if i < MAXJOBS then (if P (jl ! i) then Some i else scan_from P jl (Suc i)) else None)"
  by pat_completeness auto
termination
  by (relation "measure (\<lambda>(P, jl, i). MAXJOBS - i)") auto

declare scan_from.simps [simp del]

text \<open>\<^verbatim>\<open>maxjid\<close>: the largest allocated job id.\<close>

function maxjid_loop :: "job_t list \<Rightarrow> nat \<Rightarrow> int \<Rightarrow> int" where
  "maxjid_loop jl i mx =
     (if i < MAXJOBS
      then maxjid_loop jl (Suc i) (if jid (jl ! i) > mx then jid (jl ! i) else mx)
      else mx)"
  by pat_completeness auto
termination
  by (relation "measure (\<lambda>(jl, i, mx). MAXJOBS - i)") auto

declare maxjid_loop.simps [simp del]

definition maxjid :: "job_t list \<Rightarrow> int" where
  "maxjid jl = maxjid_loop jl 0 0"

text \<open>
  \<^verbatim>\<open>addjob\<close>. The result pairs the C return value (1 added, 0 not) with the new state.
  \<^verbatim>\<open>strcpy\<close> copies the whole command line: the callers pass lines shorter than
  \<^verbatim>\<open>MAXLINE_TSH\<close>.
\<close>

definition addjob :: "shell \<Rightarrow> int \<Rightarrow> int \<Rightarrow> string \<Rightarrow> int \<times> shell" where
  "addjob s p st cmd =
     (if p < 1 then (0, s)
      else case scan_from (\<lambda>j. pid j = 0) (job_list s) 0 of
        Some i \<Rightarrow>
          (let job = (job_list s ! i)\<lparr>pid := p, state := st, jid := nextjid s, cmdline := cmd\<rparr>;
               nj = nextjid s + 1;
               nj' = (if nj > int MAXJOBS then 1 else nj);
               ou = (if verbose s
                    then out s @ ''Added job ['' @ int_dec (jid job) @ ''] '' @ int_dec (pid job)
                           @ '' '' @ cmdline job @ [CHR 0x0A]
                    else out s)
           in (1, s\<lparr>job_list := (job_list s)[i := job], nextjid := nj', out := ou\<rparr>))
      | None \<Rightarrow> (0, s\<lparr>out := out s @ ''Tried to create too many jobs'' @ [CHR 0x0A]\<rparr>))"

text \<open>\<^verbatim>\<open>deletejob\<close>: 1 when a slot was cleared, 0 otherwise.\<close>

definition deletejob :: "shell \<Rightarrow> int \<Rightarrow> int \<times> shell" where
  "deletejob s p =
     (if p < 1 then (0, s)
      else case scan_from (\<lambda>j. pid j = p) (job_list s) 0 of
        Some i \<Rightarrow>
          (let jl = (job_list s)[i := clearjob (job_list s ! i)]
           in (1, s\<lparr>job_list := jl, nextjid := maxjid jl + 1\<rparr>))
      | None \<Rightarrow> (0, s))"

text \<open>\<^verbatim>\<open>fgpid\<close>: the pid of the first slot in state FG, 0 if there is none.\<close>

definition fgpid :: "job_t list \<Rightarrow> int" where
  "fgpid jl = (case scan_from (\<lambda>j. state j = FG) jl 0 of Some i \<Rightarrow> pid (jl ! i) | None \<Rightarrow> 0)"

text \<open>
  \<^verbatim>\<open>getjobpid\<close> and \<^verbatim>\<open>getjobjid\<close> return a pointer into the table or NULL: here the
  index of the slot, or \<open>None\<close>.
\<close>

definition getjobpid :: "job_t list \<Rightarrow> int \<Rightarrow> nat option" where
  "getjobpid jl p = (if p < 1 then None else scan_from (\<lambda>j. pid j = p) jl 0)"

definition getjobjid :: "job_t list \<Rightarrow> int \<Rightarrow> nat option" where
  "getjobjid jl j = (if j < 1 then None else scan_from (\<lambda>job. jid job = j) jl 0)"

definition pid2jid :: "job_t list \<Rightarrow> int \<Rightarrow> int" where
  "pid2jid jl p =
     (if p < 1 then 0
      else case scan_from (\<lambda>j. pid j = p) jl 0 of Some i \<Rightarrow> jid (jl ! i) | None \<Rightarrow> 0)"

subsection \<open>Listing the jobs\<close>

text \<open>
  How a call can end other than by returning to the shell's read loop: a dereference of a
  NULL pointer, a call of \<^verbatim>\<open>exit\<close> with the given status, a wait that no signal ever
  ends, or, after \<^verbatim>\<open>fork\<close>, being the child (which goes on to \<^verbatim>\<open>execve\<close> or
  \<^verbatim>\<open>exit\<close>).
\<close>

datatype fault = Segfault | Exit int | Hang | ChildImage

text \<open>
  \<^verbatim>\<open>write(output_fd, buf, strlen(buf))\<close> on a descriptor whose text so far is \<open>acc\<close>.
  The flag \<open>failing\<close> is the operating system's answer: a failing descriptor makes the
  call return a negative value (\<open>None\<close>), a working one takes all the bytes.
\<close>

definition write_fd :: "bool \<Rightarrow> string \<Rightarrow> string \<Rightarrow> string option" where
  "write_fd failing acc buf = (if failing then None else Some (acc @ buf))"

text \<open>The text \<^verbatim>\<open>listjobs\<close> formats for the state of slot \<open>i\<close> (the \<^verbatim>\<open>switch\<close>).\<close>

definition state_label :: "nat \<Rightarrow> int \<Rightarrow> string" where
  "state_label i st =
     (if st = BG then ''Running    ''
      else if st = FG then ''Foreground ''
      else if st = ST then ''Stopped    ''
      else ''listjobs: Internal error: job['' @ int_dec (int i) @ ''].state='' @ int_dec st @ '' '')"

text \<open>
  \<^verbatim>\<open>listjobs\<close>: three writes for every slot whose pid is not 0; a failed write ends
  the process with \<^verbatim>\<open>exit(1)\<close>.
\<close>

function listjobs_loop :: "job_t list \<Rightarrow> bool \<Rightarrow> nat \<Rightarrow> string \<Rightarrow> fault + string" where
  "listjobs_loop jl failing i acc =
     (if i < MAXJOBS then
        (if pid (jl ! i) \<noteq> 0 then
           (case write_fd failing acc
                   (''['' @ int_dec (jid (jl ! i)) @ ''] ('' @ int_dec (pid (jl ! i)) @ '') '') of
              None \<Rightarrow> Inl (Exit 1)
            | Some acc1 \<Rightarrow>
               (case write_fd failing acc1 (state_label i (state (jl ! i))) of
                  None \<Rightarrow> Inl (Exit 1)
                | Some acc2 \<Rightarrow>
                   (case write_fd failing acc2 (cmdline (jl ! i) @ [CHR 0x0A]) of
                      None \<Rightarrow> Inl (Exit 1)
                    | Some acc3 \<Rightarrow> listjobs_loop jl failing (Suc i) acc3)))
         else listjobs_loop jl failing (Suc i) acc)
      else Inr acc)"
  by pat_completeness auto
termination
  by (relation "measure (\<lambda>(jl, failing, i, acc). MAXJOBS - i)") auto

declare listjobs_loop.simps [simp del]

definition listjobs :: "job_t list \<Rightarrow> bool \<Rightarrow> string \<Rightarrow> fault + string" where
  "listjobs jl failing acc = listjobs_loop jl failing 0 acc"

subsection \<open>The SIGCHLD handler\<close>

text \<open>
  The status \<^verbatim>\<open>waitpid\<close> stores, decoded as the macros of \<^verbatim>\<open>sys/wait.h\<close> read it:
  stopped by a signal, terminated by a signal, or exited with a status.
\<close>

datatype wstatus = Stopped int | Signaled int | Exited int

definition WIFSTOPPED :: "wstatus \<Rightarrow> bool" where
  "WIFSTOPPED w = (case w of Stopped _ \<Rightarrow> True | _ \<Rightarrow> False)"

definition WIFSIGNALED :: "wstatus \<Rightarrow> bool" where
  "WIFSIGNALED w = (case w of Signaled _ \<Rightarrow> True | _ \<Rightarrow> False)"

definition WIFEXITED :: "wstatus \<Rightarrow> bool" where
  "WIFEXITED w = (case w of Exited _ \<Rightarrow> True | _ \<Rightarrow> False)"

definition WSTOPSIG :: "wstatus \<Rightarrow> int" where
  "WSTOPSIG w = (case w of Stopped n \<Rightarrow> n | _ \<Rightarrow> 0)"

definition WTERMSIG :: "wstatus \<Rightarrow> int" where
  "WTERMSIG w = (case w of Signaled n \<Rightarrow> n | _ \<Rightarrow> 0)"

text \<open>
  The message both branches of the handler compose with \<^verbatim>\<open>sio_puts\<close> and
  \<^verbatim>\<open>sio_putl\<close>: \<^verbatim>\<open>Job [jid] (pid) <what> N\<close> and a newline.
\<close>

definition job_notice :: "int \<Rightarrow> int \<Rightarrow> string \<Rightarrow> int \<Rightarrow> string" where
  "job_notice j p what n =
     ''Job ['' @ int_dec j @ ''] ('' @ int_dec p @ '') '' @ what @ int_dec n @ [CHR 0x0A]"

text \<open>
  The stopped branch: \<^verbatim>\<open>cur_job = getjobpid(job_list, pid); cur_job->state = ST;\<close>
  writes through the pointer without testing it, so a NULL result ends the process.
\<close>

definition reap_stopped :: "shell \<Rightarrow> int \<Rightarrow> wstatus \<Rightarrow> fault + shell" where
  "reap_stopped s p stat =
     (case getjobpid (job_list s) p of
        None \<Rightarrow> Inl Segfault
      | Some i \<Rightarrow>
          (let s1 = s\<lparr>job_list := (job_list s)[i := (job_list s ! i)\<lparr>state := ST\<rparr>]\<rparr>
           in Inr (s1\<lparr>out := out s1 @
                 job_notice (pid2jid (job_list s1) p) p ''stopped by signal '' (WSTOPSIG stat)\<rparr>)))"

definition reap_signaled :: "shell \<Rightarrow> int \<Rightarrow> wstatus \<Rightarrow> shell" where
  "reap_signaled s p stat =
     snd (deletejob
       (s\<lparr>out := out s @
            job_notice (pid2jid (job_list s) p) p ''terminated by signal '' (WTERMSIG stat)\<rparr>) p)"

text \<open>The body of the handler's loop, for one pid and status that \<^verbatim>\<open>waitpid\<close> returned.\<close>

definition reap_child :: "shell \<Rightarrow> int \<Rightarrow> wstatus \<Rightarrow> fault + shell" where
  "reap_child s p stat =
     (case (if WIFSTOPPED stat then reap_stopped s p stat else Inr s) of
        Inl f \<Rightarrow> Inl f
      | Inr s1 \<Rightarrow>
          (let s2 = (if WIFSIGNALED stat then reap_signaled s1 p stat else s1);
               s3 = (if WIFEXITED stat then snd (deletejob s2 p) else s2)
           in Inr s3))"

text \<open>
  \<^verbatim>\<open>sigchld_handler\<close>: the list holds what the successive calls of
  \<^verbatim>\<open>waitpid(-1, &stat, WNOHANG | WUNTRACED)\<close> return; the loop ends at the first
  result that is not positive, or when the list is used up (nothing left to report).
\<close>

fun sigchld_handler :: "shell \<Rightarrow> (int \<times> wstatus) list \<Rightarrow> fault + shell" where
  "sigchld_handler s [] = Inr s"
| "sigchld_handler s ((p, stat) # rest) =
     (if p > 0 then
        (case reap_child s p stat of
           Inl f \<Rightarrow> Inl f
         | Inr s1 \<Rightarrow> sigchld_handler s1 rest)
      else Inr s)"

subsection \<open>The table right after \<^verbatim>\<open>initjobs\<close>\<close>

definition empty_slot :: job_t where
  "empty_slot = \<lparr>pid = 0, jid = 0, state = UNDEF, cmdline = []\<rparr>"

definition init_shell :: shell where
  "init_shell = \<lparr>job_list = replicate MAXJOBS empty_slot, nextjid = 1, verbose = False,
     out = [], errs = [], sent = [], files = []\<rparr>"

text \<open>A table holding one background job, for the examples below.\<close>

definition one_job :: shell where
  "one_job = init_shell\<lparr>job_list :=
      (job_list init_shell)[0 := \<lparr>pid = 5, jid = 1, state = BG, cmdline = ''ls &''\<rparr>],
    nextjid := 2\<rparr>"

text \<open>A table whose only live slot carries a state outside FG, BG and ST.\<close>

definition undef_job :: shell where
  "undef_job = init_shell\<lparr>job_list :=
      (job_list init_shell)[0 := \<lparr>pid = 5, jid = 1, state = UNDEF, cmdline = ''ls''\<rparr>],
    nextjid := 2\<rparr>"

subsection \<open>The command-line tokens\<close>

datatype builtins_t = BUILTIN_NONE | BUILTIN_QUIT | BUILTIN_JOBS | BUILTIN_BG | BUILTIN_FG

text \<open>
  \<^verbatim>\<open>struct cmdline_tokens\<close>. The list \<open>argv\<close> holds the entries \<^verbatim>\<open>argv[0]\<close> to
  \<^verbatim>\<open>argv[argc - 1]\<close>, so the field \<^verbatim>\<open>argc\<close> is its length; a NULL file name is
  \<open>None\<close>.
\<close>

record cmdline_tokens =
  argv :: "string list"
  infile :: "string option"
  outfile :: "string option"
  builtins :: builtins_t

definition ST_NORMAL :: nat where "ST_NORMAL = 0"
definition ST_INFILE :: nat where "ST_INFILE = 1"
definition ST_OUTFILE :: nat where "ST_OUTFILE = 2"

subsection \<open>parseline\<close>

text \<open>The delimiters \<^verbatim>\<open>" \t\r\n"\<close>.\<close>

definition is_delim :: "char \<Rightarrow> bool" where
  "is_delim c = (c = CHR '' '' \<or> c = CHR 0x09 \<or> c = CHR 0x0D \<or> c = CHR 0x0A)"

definition is_quote :: "char \<Rightarrow> bool" where
  "is_quote c = (c = CHR 0x27 \<or> c = CHR 0x22)"

text \<open>\<^verbatim>\<open>buf += strspn(buf, delims)\<close>.\<close>

definition skip_delims :: "string \<Rightarrow> string" where
  "skip_delims buf = dropWhile is_delim buf"

text \<open>
  The token that starts with the character \<open>c\<close> at \<^verbatim>\<open>buf\<close>, followed by \<open>cs\<close>, and the
  buffer after it (\<^verbatim>\<open>next + 1\<close>). After a quote, \<^verbatim>\<open>strchr\<close> looks for the same
  quote in \<open>cs\<close> and returns NULL (\<open>None\<close>) when there is none. Otherwise the token runs to
  the next delimiter (\<^verbatim>\<open>strcspn\<close>), or to the end of the line.
\<close>

definition next_token :: "char \<Rightarrow> string \<Rightarrow> (string \<times> string) option" where
  "next_token c cs =
     (if is_quote c then
        (if c \<in> set cs
         then Some (takeWhile (\<lambda>x. x \<noteq> c) cs, drop 1 (dropWhile (\<lambda>x. x \<noteq> c) cs))
         else None)
      else Some (takeWhile (\<lambda>x. \<not> is_delim x) (c # cs),
                 drop 1 (dropWhile (\<lambda>x. \<not> is_delim x) (c # cs))))"

text \<open>
  The \<^verbatim>\<open>switch (parsing_state)\<close>: the token becomes the next argument, the input file
  or the output file; in any other state (both redirections pending) the line is refused.
\<close>

definition record_token :: "nat \<Rightarrow> string \<Rightarrow> cmdline_tokens \<Rightarrow> cmdline_tokens option" where
  "record_token st t tok =
     (if st = ST_NORMAL then Some (tok\<lparr>argv := argv tok @ [t]\<rparr>)
      else if st = ST_INFILE then Some (tok\<lparr>infile := Some t\<rparr>)
      else if st = ST_OUTFILE then Some (tok\<lparr>outfile := Some t\<rparr>)
      else None)"

definition msg_ambiguous :: string where
  "msg_ambiguous = ''Error: Ambiguous I/O redirection'' @ [CHR 0x0A]"

definition msg_unmatched :: "char \<Rightarrow> string" where
  "msg_unmatched c = ''Error: unmatched '' @ [c] @ ''.'' @ [CHR 0x0A]"

definition msg_no_file :: string where
  "msg_no_file = ''Error: must provide file name for redirection'' @ [CHR 0x0A]"

definition msg_null :: string where
  "msg_null = ''Error: command line is NULL'' @ [CHR 0x0A]"

lemma skip_delims_shorter: "skip_delims buf = c # cs \<Longrightarrow> length cs < length buf"
proof -
  assume a: "skip_delims buf = c # cs"
  have "length (skip_delims buf) \<le> length buf"
    unfolding skip_delims_def by (rule length_dropWhile_le)
  with a show ?thesis by simp
qed

lemma next_token_shorter: "next_token c cs = Some (t, rest) \<Longrightarrow> length rest \<le> length cs"
proof -
  assume a: "next_token c cs = Some (t, rest)"
  have q: "length (dropWhile (\<lambda>x. x \<noteq> c) cs) \<le> length cs" by (rule length_dropWhile_le)
  have d: "length (dropWhile (\<lambda>x. \<not> is_delim x) cs) \<le> length cs" by (rule length_dropWhile_le)
  from a q d show ?thesis
    by (auto simp: next_token_def split: if_splits)
qed

lemma next_token_suffix:
  "next_token c cs = Some x \<Longrightarrow> (t, rest) = x \<Longrightarrow> length rest \<le> length cs"
  using next_token_shorter [of c cs t rest] by simp

text \<open>
  The \<^verbatim>\<open>while (buf < endbuf)\<close> loop. \<open>Inl (msg, tok)\<close> is a \<^verbatim>\<open>return -1\<close> from inside
  the loop after \<open>msg\<close> went to \<^verbatim>\<open>stderr\<close>, with the token structure as filled so far;
  \<open>Inr (st, tok)\<close> is the normal end of the loop in parsing state \<open>st\<close>.
\<close>

function parse_loop ::
  "string \<Rightarrow> nat \<Rightarrow> cmdline_tokens \<Rightarrow> (string \<times> cmdline_tokens) + (nat \<times> cmdline_tokens)" where
  "parse_loop buf st tok =
     (case skip_delims buf of
        [] \<Rightarrow> Inr (st, tok)
      | c # cs \<Rightarrow>
          if c = CHR ''<'' then
            (if infile tok \<noteq> None then Inl (msg_ambiguous, tok)
             else parse_loop cs (or st ST_INFILE) tok)
          else if c = CHR ''>'' then
            (if outfile tok \<noteq> None then Inl (msg_ambiguous, tok)
             else parse_loop cs (or st ST_OUTFILE) tok)
          else
            (case next_token c cs of
               None \<Rightarrow> Inl (msg_unmatched c, tok)
             | Some (t, rest) \<Rightarrow>
                 (case record_token st t tok of
                    None \<Rightarrow> Inl (msg_ambiguous, tok)
                  | Some tok1 \<Rightarrow>
                      if length (argv tok1) \<ge> MAXARGS - 1 then Inr (ST_NORMAL, tok1)
                      else parse_loop rest ST_NORMAL tok1)))"
  by pat_completeness auto
termination
  apply (relation "measure (\<lambda>(buf, st, tok). length buf)")
     apply simp
    apply (simp add: skip_delims_shorter)
   apply (simp add: skip_delims_shorter)
  apply (drule skip_delims_shorter)
  apply (drule (1) next_token_suffix)
  apply simp
  done

declare parse_loop.simps [simp del]

text \<open>The classification of \<^verbatim>\<open>argv[0]\<close> by the chain of \<^verbatim>\<open>strcmp\<close> tests.\<close>

definition classify :: "string \<Rightarrow> builtins_t" where
  "classify a =
     (if a = ''quit'' then BUILTIN_QUIT
      else if a = ''jobs'' then BUILTIN_JOBS
      else if a = ''bg'' then BUILTIN_BG
      else if a = ''fg'' then BUILTIN_FG
      else BUILTIN_NONE)"

text \<open>\<^verbatim>\<open>*tok->argv[tok->argc - 1] == '&'\<close>: the first character of the last argument.\<close>

definition starts_with_amp :: "string \<Rightarrow> bool" where
  "starts_with_amp a = (case a of [] \<Rightarrow> False | c # _ \<Rightarrow> c = CHR ''&'')"

text \<open>
  \<^verbatim>\<open>parseline\<close>. The command line is \<open>None\<close> for a NULL pointer. The result is the
  return value, the token structure as the call leaves it (it is the caller's, passed in
  as \<open>tok0\<close>) and the text written to \<^verbatim>\<open>stderr\<close>. The line is shorter than
  \<^verbatim>\<open>MAXLINE_TSH\<close>, as \<^verbatim>\<open>fgets\<close> in \<^verbatim>\<open>main\<close> makes it: \<^verbatim>\<open>strncpy\<close> then copies
  all of it with its terminator.
\<close>

definition parseline :: "string option \<Rightarrow> cmdline_tokens \<Rightarrow> int \<times> cmdline_tokens \<times> string" where
  "parseline line_opt tok0 =
     (case line_opt of
        None \<Rightarrow> (- 1, tok0, msg_null)
      | Some line \<Rightarrow>
          (case parse_loop line ST_NORMAL (tok0\<lparr>infile := None, outfile := None, argv := []\<rparr>) of
             Inl (msg, tok) \<Rightarrow> (- 1, tok, msg)
           | Inr (st, tok) \<Rightarrow>
               if st \<noteq> ST_NORMAL then (- 1, tok, msg_no_file)
               else if argv tok = [] then (1, tok, [])
               else
                 (let tok1 = tok\<lparr>builtins := classify (hd (argv tok))\<rparr>
                  in if starts_with_amp (last (argv tok1))
                     then (1, tok1\<lparr>argv := butlast (argv tok1)\<rparr>, [])
                     else (0, tok1, []))))"

subsection \<open>The tokens of a command line, as the specification describes them\<close>

text \<open>
  White space separates tokens; \<^verbatim>\<open><\<close> and \<^verbatim>\<open>>\<close> at the start of a token are the
  redirection operators; a token that starts with a quote runs to the matching quote;
  any other token is a bare word that runs to the next white space.
\<close>

datatype token = Word string | Quoted string | RedirIn | RedirOut

definition is_arg :: "token \<Rightarrow> bool" where
  "is_arg t = (case t of Word _ \<Rightarrow> True | Quoted _ \<Rightarrow> True | _ \<Rightarrow> False)"

definition token_text :: "token \<Rightarrow> string" where
  "token_text t = (case t of Word w \<Rightarrow> w | Quoted w \<Rightarrow> w | RedirIn \<Rightarrow> ''<'' | RedirOut \<Rightarrow> ''>'')"

text \<open>
  \<open>lex_line\<close> splits a line into its tokens. The second component is the quote character at
  which the splitting stopped because it has no matching closing quote, if there is one.
\<close>

function lex_line :: "string \<Rightarrow> token list \<times> char option" where
  "lex_line buf =
     (case skip_delims buf of
        [] \<Rightarrow> ([], None)
      | c # cs \<Rightarrow>
          if c = CHR ''<'' then (case lex_line cs of (ts, u) \<Rightarrow> (RedirIn # ts, u))
          else if c = CHR ''>'' then (case lex_line cs of (ts, u) \<Rightarrow> (RedirOut # ts, u))
          else
            (case next_token c cs of
               None \<Rightarrow> ([], Some c)
             | Some (t, rest) \<Rightarrow>
                 (case lex_line rest of (ts, u) \<Rightarrow>
                    ((if is_quote c then Quoted t else Word t) # ts, u))))"
  by pat_completeness auto
termination
  apply (relation "measure length")
     apply simp
    apply (simp add: skip_delims_shorter)
   apply (simp add: skip_delims_shorter)
  apply (drule skip_delims_shorter)
  apply (drule (1) next_token_suffix)
  apply simp
  done

declare lex_line.simps [simp del]

text \<open>
  The argument words among the tokens: every word except the one that follows a
  redirection operator (\<open>pending\<close> tells whether an operator waits for its file name).
\<close>

fun arg_words :: "token list \<Rightarrow> bool \<Rightarrow> string list" where
  "arg_words [] pending = []"
| "arg_words (RedirIn # ts) pending = arg_words ts True"
| "arg_words (RedirOut # ts) pending = arg_words ts True"
| "arg_words (Word w # ts) pending = (if pending then arg_words ts False else w # arg_words ts False)"
| "arg_words (Quoted w # ts) pending = (if pending then arg_words ts False else w # arg_words ts False)"

text \<open>The loop of \<^verbatim>\<open>parseline\<close> replayed on the tokens, for the proofs below.\<close>

fun run_tokens ::
  "token list \<Rightarrow> char option \<Rightarrow> nat \<Rightarrow> cmdline_tokens
     \<Rightarrow> (string \<times> cmdline_tokens) + (nat \<times> cmdline_tokens)" where
  "run_tokens [] u st tok =
     (case u of None \<Rightarrow> Inr (st, tok) | Some q \<Rightarrow> Inl (msg_unmatched q, tok))"
| "run_tokens (RedirIn # ts) u st tok =
     (if infile tok \<noteq> None then Inl (msg_ambiguous, tok)
      else run_tokens ts u (or st ST_INFILE) tok)"
| "run_tokens (RedirOut # ts) u st tok =
     (if outfile tok \<noteq> None then Inl (msg_ambiguous, tok)
      else run_tokens ts u (or st ST_OUTFILE) tok)"
| "run_tokens (t # ts) u st tok =
     (case record_token st (token_text t) tok of
        None \<Rightarrow> Inl (msg_ambiguous, tok)
      | Some tok1 \<Rightarrow>
          if length (argv tok1) \<ge> MAXARGS - 1 then Inr (ST_NORMAL, tok1)
          else run_tokens ts u ST_NORMAL tok1)"

subsection \<open>Library routines the shell calls\<close>

text \<open>
  Modelled from the spec: \<^verbatim>\<open>unix_error\<close> is declared in \<^verbatim>\<open>csapp.h\<close> and its body is
  not part of \<^verbatim>\<open>shell.c\<close>. The specification has every such error "reported", after
  which the command is abandoned and "the shell continues": the routine records the
  message and returns to its caller.
\<close>

definition unix_error :: "string \<Rightarrow> shell \<Rightarrow> shell" where
  "unix_error msg s = s\<lparr>errs := errs s @ [msg]\<rparr>"

text \<open>
  \<^verbatim>\<open>atoi\<close> of the C library: optional white space, an optional sign, then the decimal
  digits up to the first character that is not one (0 when there are none). The value is
  taken as it stands; a digit string beyond the range of \<^verbatim>\<open>int\<close> is outside what the C
  standard defines.
\<close>

definition is_space :: "char \<Rightarrow> bool" where
  "is_space c = (c = CHR '' '' \<or> c = CHR 0x09 \<or> c = CHR 0x0A \<or> c = CHR 0x0B \<or> c = CHR 0x0C
     \<or> c = CHR 0x0D)"

definition is_digit :: "char \<Rightarrow> bool" where
  "is_digit c = (48 \<le> (of_char c :: nat) \<and> (of_char c :: nat) \<le> 57)"

fun digits_value :: "string \<Rightarrow> int \<Rightarrow> int" where
  "digits_value [] acc = acc"
| "digits_value (c # cs) acc =
     (if is_digit c then digits_value cs (10 * acc + (int (of_char c) - 48)) else acc)"

definition atoi :: "string \<Rightarrow> int" where
  "atoi a =
     (case dropWhile is_space a of
        [] \<Rightarrow> 0
      | c # cs \<Rightarrow>
          if c = CHR ''-'' then - digits_value cs 0
          else if c = CHR ''+'' then digits_value cs 0
          else digits_value (c # cs) 0)"

subsection \<open>The built-in commands bg and fg\<close>

text \<open>
  Both handlers start with the same lookup: a first character \<^verbatim>\<open>%\<close> makes the rest of
  the argument a job id for \<^verbatim>\<open>getjobjid\<close>, anything else is a process id for
  \<^verbatim>\<open>getjobpid\<close>.
\<close>

definition job_of_arg :: "job_t list \<Rightarrow> string \<Rightarrow> nat option" where
  "job_of_arg jl a =
     (case a of
        c # cs \<Rightarrow> if c = CHR ''%'' then getjobjid jl (atoi cs) else getjobpid jl (atoi (c # cs))
      | [] \<Rightarrow> getjobpid jl (atoi []))"

definition msg_not_found :: string where
  "msg_not_found = ''Job not found'' @ [CHR 0x0A]"

text \<open>
  \<^verbatim>\<open>bg_handler\<close>. \<^verbatim>\<open>tok->argv[1][0]\<close> is read first: with no argument after the
  command name \<^verbatim>\<open>argv[1]\<close> is the NULL terminator of the list.
\<close>

definition bg_handler :: "cmdline_tokens \<Rightarrow> shell \<Rightarrow> fault + shell" where
  "bg_handler tok s =
     (case argv tok of
        _ # a # _ \<Rightarrow>
          (case job_of_arg (job_list s) a of
             None \<Rightarrow> Inr (unix_error msg_not_found s)
           | Some i \<Rightarrow>
               (let job = (job_list s ! i)\<lparr>state := BG\<rparr>
                in Inr (s\<lparr>job_list := (job_list s)[i := job],
                          sent := sent s @ [(- pid job, SIGCONT)],
                          out := out s @ ''['' @ int_dec (jid job) @ ''] ('' @ int_dec (pid job)
                                   @ '') '' @ cmdline job @ [CHR 0x0A]\<rparr>)))
      | _ \<Rightarrow> Inl Segfault)"

text \<open>
  \<^verbatim>\<open>fg_handler\<close>, in two parts: up to the call of \<^verbatim>\<open>waitpid\<close> (\<open>fg_begin\<close>, which
  also returns the slot it waits for) and from its return with the status \<open>w\<close>
  (\<open>fg_end\<close>).
\<close>

definition fg_begin :: "cmdline_tokens \<Rightarrow> shell \<Rightarrow> fault + (shell \<times> nat option)" where
  "fg_begin tok s =
     (case argv tok of
        _ # a # _ \<Rightarrow>
          (case job_of_arg (job_list s) a of
             None \<Rightarrow> Inr (unix_error msg_not_found s, None)
           | Some i \<Rightarrow>
               Inr (s\<lparr>sent := sent s @ [(- pid (job_list s ! i), SIGCONT)],
                       job_list := (job_list s)[i := (job_list s ! i)\<lparr>state := FG\<rparr>]\<rparr>, Some i))
      | _ \<Rightarrow> Inl Segfault)"

definition fg_end :: "nat \<Rightarrow> wstatus \<Rightarrow> shell \<Rightarrow> shell" where
  "fg_end i w s =
     (if WIFSTOPPED w then s\<lparr>job_list := (job_list s)[i := (job_list s ! i)\<lparr>state := ST\<rparr>]\<rparr>
      else snd (deletejob s (pid (job_list s ! i))))"

definition fg_handler :: "cmdline_tokens \<Rightarrow> wstatus \<Rightarrow> shell \<Rightarrow> fault + shell" where
  "fg_handler tok w s =
     (case fg_begin tok s of
        Inl f \<Rightarrow> Inl f
      | Inr (s1, None) \<Rightarrow> Inr s1
      | Inr (s1, Some i) \<Rightarrow> Inr (fg_end i w s1))"

subsection \<open>eval\<close>

text \<open>
  What the operating system answers during one call of \<^verbatim>\<open>eval\<close>: whether \<^verbatim>\<open>open\<close>
  of the output file succeeds and whether writes to the listing's descriptor fail, the
  value \<^verbatim>\<open>fork\<close> returns, the status the \<^verbatim>\<open>waitpid\<close> of \<^verbatim>\<open>fg\<close> stores, and, for
  every return of \<^verbatim>\<open>sigsuspend\<close>, the children the SIGCHLD handler found.
\<close>

record os_input =
  open_ok :: bool
  write_failing :: bool
  fork_ret :: int
  wait_status :: wstatus
  sigchlds :: "(int \<times> wstatus) list list"

text \<open>
  \<^verbatim>\<open>while (pid == fgpid(job_list)) sigsuspend(&prev_mask);\<close> When the job is still in
  the foreground and no signal is left to come, the wait does not end.
\<close>

fun wait_fg :: "int \<Rightarrow> (int \<times> wstatus) list list \<Rightarrow> shell \<Rightarrow> fault + shell" where
  "wait_fg p [] s = (if p = fgpid (job_list s) then Inl Hang else Inr s)"
| "wait_fg p (ev # evs) s =
     (if p = fgpid (job_list s) then
        (case sigchld_handler s ev of
           Inl f \<Rightarrow> Inl f
         | Inr s1 \<Rightarrow> wait_fg p evs s1)
      else Inr s)"

text \<open>The parent after \<^verbatim>\<open>fork\<close>: the job is added, then announced or waited for.\<close>

definition launch_parent ::
  "string \<Rightarrow> int \<Rightarrow> int \<Rightarrow> (int \<times> wstatus) list list \<Rightarrow> shell \<Rightarrow> fault + shell" where
  "launch_parent line bg p evs s =
     (let s1 = snd (addjob s p (bg + 1) line)
      in if bg \<noteq> 0
         then Inr (s1\<lparr>out := out s1 @ ''['' @ int_dec (pid2jid (job_list s1) p) @ ''] (''
                              @ int_dec p @ '') '' @ line @ [CHR 0x0A]\<rparr>)
         else wait_fg p evs s1)"

text \<open>
  \<^verbatim>\<open>eval\<close>. \<open>tok0\<close> is the content of the local token structure before
  \<^verbatim>\<open>parseline\<close> fills it. The model follows the shell process: where \<^verbatim>\<open>fork\<close>
  returns 0 the process is the child, which leaves the shell's code.
\<close>

definition eval :: "string \<Rightarrow> os_input \<Rightarrow> cmdline_tokens \<Rightarrow> shell \<Rightarrow> fault + shell" where
  "eval line os tok0 s0 =
     (case parseline (Some line) tok0 of (bg, tok, msg) \<Rightarrow>
        (let s = (if msg = [] then s0 else s0\<lparr>errs := errs s0 @ [msg]\<rparr>)
         in if bg = - 1 then Inr s
            else if argv tok = [] then Inr s
            else
              (case builtins tok of
                 BUILTIN_QUIT \<Rightarrow> Inl (Exit 0)
               | BUILTIN_JOBS \<Rightarrow>
                   (case outfile tok of
                      Some f \<Rightarrow>
                        if \<not> open_ok os then Inr (unix_error ''error opening file'' s)
                        else
                          (case listjobs (job_list s) (write_failing os) [] of
                             Inl e \<Rightarrow> Inl e
                           | Inr txt \<Rightarrow> Inr (s\<lparr>files := files s @ [(f, txt)]\<rparr>))
                    | None \<Rightarrow>
                        (case listjobs (job_list s) (write_failing os) (out s) of
                           Inl e \<Rightarrow> Inl e
                         | Inr txt \<Rightarrow> Inr (s\<lparr>out := txt\<rparr>)))
               | BUILTIN_BG \<Rightarrow> bg_handler tok s
               | BUILTIN_FG \<Rightarrow> fg_handler tok (wait_status os) s
               | BUILTIN_NONE \<Rightarrow>
                   (let p = fork_ret os;
                        s1 = (if p < 0 then unix_error ''error with fork'' s else s)
                    in if p = 0 then Inl ChildImage
                       else launch_parent line bg p (sigchlds os) s1))))"


text \<open>A token structure and operating-system answers for the examples.\<close>

definition blank_tok :: cmdline_tokens where
  "blank_tok = \<lparr>argv = [], infile = None, outfile = None, builtins = BUILTIN_NONE\<rparr>"

definition quiet_os :: os_input where
  "quiet_os = \<lparr>open_ok = True, write_failing = False, fork_ret = 100, wait_status = Exited 0,
     sigchlds = []\<rparr>"

text \<open>A line of 127 one-letter arguments followed by a token with an unmatched quote.\<close>

definition full_then_quote :: string where
  "full_then_quote = concat (replicate 127 ''a '') @ [CHR 0x27] @ ''b''"

text \<open>A line of 127 one-letter arguments followed by two input redirections.\<close>

definition full_then_redirs :: string where
  "full_then_redirs = concat (replicate 127 ''a '') @ ''< b < c''"

subsection \<open>The shell as a transition system\<close>

text \<open>
  Where the shell's control is: at the prompt between two commands, inside the
  \<^verbatim>\<open>sigsuspend\<close> loop of \<^verbatim>\<open>eval\<close> waiting for the foreground job with the given pid,
  or inside the \<^verbatim>\<open>waitpid\<close> of \<^verbatim>\<open>fg_handler\<close> waiting for the job in the given slot.
\<close>

datatype mode = Prompt | WaitFg int | WaitPid nat

text \<open>
  The shell together with the part of the operating system it depends on: \<open>children\<close>
  are the pids of the child processes that exist and have not been reaped.
\<close>

record sys =
  sh :: shell
  mode :: mode
  children :: "int set"

text \<open>
  The states the shell can reach. Every rule is one operation on the job table, carried
  out by the function that models the code: start-up (\<^verbatim>\<open>initjobs\<close>), the launch of a
  background or foreground job with the pid \<^verbatim>\<open>fork\<close> returned, one child status
  handled by the SIGCHLD handler (at any time), the end of the foreground wait,
  \<^verbatim>\<open>bg\<close>, the two halves of \<^verbatim>\<open>fg\<close>, a deletion, and any step that leaves table and
  counter alone (output, error reports, signals sent). The premises on pids are the
  operating system's: \<^verbatim>\<open>fork\<close> returns a positive pid that no unreaped child has, and
  \<^verbatim>\<open>waitpid\<close> reports children only. Each rule is one step: the handler does not
  run in the middle of another operation's accesses to the table.
\<close>

inductive reach :: "sys \<Rightarrow> bool" where
  start:
    "length jl0 = MAXJOBS \<Longrightarrow>
     reach \<lparr>sh = \<lparr>job_list = initjobs jl0, nextjid = 1, verbose = v, out = [], errs = [],
                  sent = [], files = []\<rparr>,
            mode = Prompt, children = {}\<rparr>"
| launch_bg:
    "reach \<sigma> \<Longrightarrow> mode \<sigma> = Prompt \<Longrightarrow> 0 < p \<Longrightarrow> p \<notin> children \<sigma> \<Longrightarrow>
     launch_parent line 1 p evs (sh \<sigma>) = Inr s' \<Longrightarrow>
     reach \<lparr>sh = s', mode = Prompt, children = insert p (children \<sigma>)\<rparr>"
| launch_fg:
    "reach \<sigma> \<Longrightarrow> mode \<sigma> = Prompt \<Longrightarrow> 0 < p \<Longrightarrow> p \<notin> children \<sigma> \<Longrightarrow>
     reach \<lparr>sh = snd (addjob (sh \<sigma>) p (0 + 1) line), mode = WaitFg p,
            children = insert p (children \<sigma>)\<rparr>"
| reap:
    "reach \<sigma> \<Longrightarrow> 0 < p \<Longrightarrow> p \<in> children \<sigma> \<Longrightarrow> reap_child (sh \<sigma>) p w = Inr s' \<Longrightarrow>
     reach \<lparr>sh = s', mode = mode \<sigma>,
            children = (if WIFSTOPPED w then children \<sigma> else children \<sigma> - {p})\<rparr>"
| wait_done:
    "reach \<sigma> \<Longrightarrow> mode \<sigma> = WaitFg p \<Longrightarrow> p \<noteq> fgpid (job_list (sh \<sigma>)) \<Longrightarrow>
     reach (\<sigma>\<lparr>mode := Prompt\<rparr>)"
| bg:
    "reach \<sigma> \<Longrightarrow> mode \<sigma> = Prompt \<Longrightarrow> bg_handler tok (sh \<sigma>) = Inr s' \<Longrightarrow>
     reach (\<sigma>\<lparr>sh := s'\<rparr>)"
| fg_start:
    "reach \<sigma> \<Longrightarrow> mode \<sigma> = Prompt \<Longrightarrow> fg_begin tok (sh \<sigma>) = Inr (s', Some i) \<Longrightarrow>
     reach (\<sigma>\<lparr>sh := s', mode := WaitPid i\<rparr>)"
| fg_done:
    "reach \<sigma> \<Longrightarrow> mode \<sigma> = WaitPid i \<Longrightarrow>
     reach \<lparr>sh = fg_end i w (sh \<sigma>), mode = Prompt,
            children = (if WIFSTOPPED w then children \<sigma>
                        else children \<sigma> - {pid (job_list (sh \<sigma>) ! i)})\<rparr>"
| delete:
    "reach \<sigma> \<Longrightarrow> reach (\<sigma>\<lparr>sh := snd (deletejob (sh \<sigma>) p)\<rparr>)"
| other:
    "reach \<sigma> \<Longrightarrow> job_list s' = job_list (sh \<sigma>) \<Longrightarrow> nextjid s' = nextjid (sh \<sigma>) \<Longrightarrow>
     reach (\<sigma>\<lparr>sh := s'\<rparr>)"


text \<open>
  The invariant behind the single foreground job. The table has \<^verbatim>\<open>MAXJOBS\<close> slots; an
  empty slot has job id 0 and is not in state FG; pids are not negative; no two live slots
  share a pid; every live pid is an unreaped child; and the slots in state FG are none at
  the prompt, only slots with the awaited pid during the foreground wait, and only the
  awaited slot during the wait of \<^verbatim>\<open>fg\<close>.
\<close>

definition table_ok :: "job_t list \<Rightarrow> int set \<Rightarrow> bool" where
  "table_ok jl C \<longleftrightarrow>
     length jl = MAXJOBS
     \<and> (\<forall>i < MAXJOBS. pid (jl ! i) = 0 \<longrightarrow> jid (jl ! i) = 0 \<and> state (jl ! i) \<noteq> FG)
     \<and> (\<forall>i < MAXJOBS. 0 \<le> pid (jl ! i))
     \<and> (\<forall>i < MAXJOBS. \<forall>j < MAXJOBS. pid (jl ! i) = pid (jl ! j) \<and> pid (jl ! i) \<noteq> 0 \<longrightarrow> i = j)
     \<and> (\<forall>i < MAXJOBS. pid (jl ! i) \<noteq> 0 \<longrightarrow> pid (jl ! i) \<in> C)"

definition mode_ok :: "job_t list \<Rightarrow> mode \<Rightarrow> bool" where
  "mode_ok jl m \<longleftrightarrow>
     (case m of
        Prompt \<Rightarrow> (\<forall>i < MAXJOBS. state (jl ! i) \<noteq> FG)
      | WaitFg p \<Rightarrow> (\<forall>i < MAXJOBS. state (jl ! i) = FG \<longrightarrow> pid (jl ! i) = p)
      | WaitPid k \<Rightarrow> k < MAXJOBS \<and> (\<forall>i < MAXJOBS. state (jl ! i) = FG \<longrightarrow> i = k))"

definition shell_inv :: "sys \<Rightarrow> bool" where
  "shell_inv \<sigma> \<longleftrightarrow> table_ok (job_list (sh \<sigma>)) (children \<sigma>) \<and> mode_ok (job_list (sh \<sigma>)) (mode \<sigma>)"



text \<open>
  The children left after the handler has dealt with a list of reported statuses, and
  the condition that the operating system reports only children, each with a positive
  pid: for one run of the handler (\<open>events_ok\<close>) and for the successive runs during a
  foreground wait (\<open>runs_ok\<close>).
\<close>

fun children_after :: "int set \<Rightarrow> (int \<times> wstatus) list \<Rightarrow> int set" where
  "children_after C [] = C"
| "children_after C ((p, w) # ev) = children_after (if WIFSTOPPED w then C else C - {p}) ev"

fun events_ok :: "int set \<Rightarrow> (int \<times> wstatus) list \<Rightarrow> bool" where
  "events_ok C [] = True"
| "events_ok C ((p, w) # ev) =
     (0 < p \<and> p \<in> C \<and> events_ok (if WIFSTOPPED w then C else C - {p}) ev)"

fun runs_ok :: "int set \<Rightarrow> (int \<times> wstatus) list list \<Rightarrow> bool" where
  "runs_ok C [] = True"
| "runs_ok C (ev # evs) = (events_ok C ev \<and> runs_ok (children_after C ev) evs)"

section \<open>Properties\<close>

subsection \<open>Facts about the scans\<close>

lemma scan_from_Some_iff:
  "scan_from P jl i = Some k \<longleftrightarrow>
     i \<le> k \<and> k < MAXJOBS \<and> P (jl ! k) \<and> (\<forall>j. i \<le> j \<and> j < k \<longrightarrow> \<not> P (jl ! j))"
proof (induction P jl i rule: scan_from.induct)
  case (1 P jl i)
  show ?case
  proof (cases "i < MAXJOBS")
    case False
    then show ?thesis by (subst scan_from.simps) auto
  next
    case lt: True
    show ?thesis
    proof (cases "P (jl ! i)")
      case True
      have "scan_from P jl i = Some i"
        using lt True by (subst scan_from.simps) simp
      moreover have "(i \<le> k \<and> k < MAXJOBS \<and> P (jl ! k) \<and> (\<forall>j. i \<le> j \<and> j < k \<longrightarrow> \<not> P (jl ! j)))
          \<longleftrightarrow> k = i"
        using lt True by (cases "i = k") (auto simp: le_less)
      ultimately show ?thesis by auto
    next
      case False
      have eq: "scan_from P jl i = scan_from P jl (Suc i)"
        using lt False by (subst scan_from.simps) simp
      have "(Suc i \<le> k \<and> k < MAXJOBS \<and> P (jl ! k) \<and> (\<forall>j. Suc i \<le> j \<and> j < k \<longrightarrow> \<not> P (jl ! j)))
          \<longleftrightarrow> (i \<le> k \<and> k < MAXJOBS \<and> P (jl ! k) \<and> (\<forall>j. i \<le> j \<and> j < k \<longrightarrow> \<not> P (jl ! j)))"
        using False by (metis Suc_leD Suc_leI le_neq_implies_less)
      then show ?thesis using "1.IH" [OF lt False] eq by simp
    qed
  qed
qed

lemma scan_from_None_iff:
  "scan_from P jl i = None \<longleftrightarrow> (\<forall>j. i \<le> j \<and> j < MAXJOBS \<longrightarrow> \<not> P (jl ! j))"
proof (induction P jl i rule: scan_from.induct)
  case (1 P jl i)
  show ?case
  proof (cases "i < MAXJOBS")
    case False
    then show ?thesis by (subst scan_from.simps) auto
  next
    case lt: True
    show ?thesis
    proof (cases "P (jl ! i)")
      case True
      then show ?thesis using lt by (subst scan_from.simps) auto
    next
      case False
      have eq: "scan_from P jl i = scan_from P jl (Suc i)"
        using lt False by (subst scan_from.simps) simp
      have "(\<forall>j. Suc i \<le> j \<and> j < MAXJOBS \<longrightarrow> \<not> P (jl ! j))
          \<longleftrightarrow> (\<forall>j. i \<le> j \<and> j < MAXJOBS \<longrightarrow> \<not> P (jl ! j))"
        using False by (metis Suc_leD Suc_leI le_neq_implies_less)
      then show ?thesis using "1.IH" [OF lt False] eq by simp
    qed
  qed
qed

subsection \<open>addjob\<close>

lemma addjob_rejected:
  assumes "p < 1 \<or> (\<forall>i < MAXJOBS. pid (job_list s ! i) \<noteq> 0)"
  shows "fst (addjob s p st cmd) = 0 \<and> job_list (snd (addjob s p st cmd)) = job_list s
    \<and> nextjid (snd (addjob s p st cmd)) = nextjid s"
proof (cases "p < 1")
  case True
  then show ?thesis by (simp add: addjob_def)
next
  case False
  with assms have "\<forall>i < MAXJOBS. pid (job_list s ! i) \<noteq> 0" by simp
  then have "scan_from (\<lambda>j. pid j = 0) (job_list s) 0 = None"
    by (simp add: scan_from_None_iff)
  then show ?thesis using False by (simp add: addjob_def)
qed

lemma job_t_all_updated:
  "(job :: job_t)\<lparr>pid := p, state := st, jid := j, cmdline := c\<rparr> =
     \<lparr>pid = p, jid = j, state = st, cmdline = c\<rparr>"
  by (cases job) simp

lemma addjob_accepted:
  assumes "1 \<le> p" and "scan_from (\<lambda>j. pid j = 0) (job_list s) 0 = Some k"
  shows "fst (addjob s p st cmd) = 1"
    and "job_list (snd (addjob s p st cmd)) =
           (job_list s)[k := \<lparr>pid = p, jid = nextjid s, state = st, cmdline = cmd\<rparr>]"
    and "nextjid (snd (addjob s p st cmd)) =
           (if nextjid s + 1 > int MAXJOBS then 1 else nextjid s + 1)"
  using assms by (simp_all add: addjob_def Let_def job_t_all_updated)

text \<open>
  C2. \<^verbatim>\<open>addjob\<close>: with a non-positive pid or no empty slot the call returns 0 and leaves
  the table and the allocation counter as they were; otherwise it returns 1, fills the
  empty slot of lowest index with the pid, the state, the command line and the current
  counter value as job id, and sets the counter to its successor, or to 1 exactly when
  the successor exceeds \<^verbatim>\<open>MAXJOBS\<close>.
\<close>

theorem addjob_spec:
  "(p < 1 \<or> (\<forall>i < MAXJOBS. pid (job_list s ! i) \<noteq> 0) \<longrightarrow>
      fst (addjob s p st cmd) = 0 \<and> job_list (snd (addjob s p st cmd)) = job_list s
      \<and> nextjid (snd (addjob s p st cmd)) = nextjid s)
   \<and> (1 \<le> p \<and> (\<exists>i < MAXJOBS. pid (job_list s ! i) = 0) \<longrightarrow>
      (\<exists>k < MAXJOBS. pid (job_list s ! k) = 0 \<and> (\<forall>j < k. pid (job_list s ! j) \<noteq> 0)
         \<and> fst (addjob s p st cmd) = 1
         \<and> job_list (snd (addjob s p st cmd)) =
             (job_list s)[k := \<lparr>pid = p, jid = nextjid s, state = st, cmdline = cmd\<rparr>]
         \<and> nextjid (snd (addjob s p st cmd)) =
             (if nextjid s + 1 > int MAXJOBS then 1 else nextjid s + 1)))"
proof (rule conjI; rule impI)
  assume "p < 1 \<or> (\<forall>i < MAXJOBS. pid (job_list s ! i) \<noteq> 0)"
  then show "fst (addjob s p st cmd) = 0 \<and> job_list (snd (addjob s p st cmd)) = job_list s
      \<and> nextjid (snd (addjob s p st cmd)) = nextjid s"
    by (rule addjob_rejected)
next
  assume a: "1 \<le> p \<and> (\<exists>i < MAXJOBS. pid (job_list s ! i) = 0)"
  then have "scan_from (\<lambda>j. pid j = 0) (job_list s) 0 \<noteq> None"
    by (auto simp: scan_from_None_iff)
  then obtain k where k: "scan_from (\<lambda>j. pid j = 0) (job_list s) 0 = Some k"
    by blast
  then have first: "k < MAXJOBS" "pid (job_list s ! k) = 0" "\<forall>j < k. pid (job_list s ! j) \<noteq> 0"
    by (simp_all add: scan_from_Some_iff)
  from a have "1 \<le> p" by simp
  from addjob_accepted [OF this k] first
  show "\<exists>k < MAXJOBS. pid (job_list s ! k) = 0 \<and> (\<forall>j < k. pid (job_list s ! j) \<noteq> 0)
         \<and> fst (addjob s p st cmd) = 1
         \<and> job_list (snd (addjob s p st cmd)) =
             (job_list s)[k := \<lparr>pid = p, jid = nextjid s, state = st, cmdline = cmd\<rparr>]
         \<and> nextjid (snd (addjob s p st cmd)) =
             (if nextjid s + 1 > int MAXJOBS then 1 else nextjid s + 1)"
    by blast
qed

lemma init_slot: "i < MAXJOBS \<Longrightarrow> job_list init_shell ! i = empty_slot"
  by (simp add: init_shell_def)


text \<open>On the empty table: pid 0 is refused, pid 5 goes to slot 0 with job id 1.\<close>

theorem addjob_spec_witness:
  "fst (addjob init_shell 0 BG ''ls &'') = 0
   \<and> fst (addjob init_shell 5 BG ''ls &'') = 1
   \<and> job_list (snd (addjob init_shell 5 BG ''ls &'')) =
        (job_list init_shell)[0 := \<lparr>pid = 5, jid = 1, state = BG, cmdline = ''ls &''\<rparr>]
   \<and> nextjid (snd (addjob init_shell 5 BG ''ls &'')) = 2"
proof -
  have z: "0 < MAXJOBS" by (simp add: MAXJOBS_def)
  have e0: "pid (job_list init_shell ! 0) = 0"
    using init_slot [OF z] by (simp add: empty_slot_def)
  have "(0::int) < 1 \<or> (\<forall>i < MAXJOBS. pid (job_list init_shell ! i) \<noteq> 0)" by simp
  with addjob_spec [where p = 0 and s = init_shell and st = BG and cmd = "''ls &''"]
  have r0: "fst (addjob init_shell 0 BG ''ls &'') = 0" by blast
  have "1 \<le> (5::int) \<and> (\<exists>i < MAXJOBS. pid (job_list init_shell ! i) = 0)"
    using z e0 by auto
  with addjob_spec [where p = 5 and s = init_shell and st = BG and cmd = "''ls &''"]
  obtain k where k: "\<forall>j < k. pid (job_list init_shell ! j) \<noteq> 0"
    and r: "fst (addjob init_shell 5 BG ''ls &'') = 1"
      "job_list (snd (addjob init_shell 5 BG ''ls &'')) =
         (job_list init_shell)[k := \<lparr>pid = 5, jid = nextjid init_shell, state = BG, cmdline = ''ls &''\<rparr>]"
      "nextjid (snd (addjob init_shell 5 BG ''ls &'')) =
         (if nextjid init_shell + 1 > int MAXJOBS then 1 else nextjid init_shell + 1)"
    by blast
  have "k = 0" using k e0 by (cases k) auto
  with r r0 show ?thesis by (simp add: init_shell_def MAXJOBS_def)
qed


subsection \<open>deletejob\<close>

lemma clearjob_eq: "clearjob job = empty_slot"
  by (cases job) (simp add: clearjob_def empty_slot_def)

lemma deletejob_absent:
  assumes "p < 1 \<or> (\<forall>i < MAXJOBS. pid (job_list s ! i) \<noteq> p)"
  shows "deletejob s p = (0, s)"
proof (cases "p < 1")
  case True
  then show ?thesis by (simp add: deletejob_def)
next
  case False
  with assms have "\<forall>i < MAXJOBS. pid (job_list s ! i) \<noteq> p" by simp
  then have "scan_from (\<lambda>j. pid j = p) (job_list s) 0 = None"
    by (simp add: scan_from_None_iff)
  then show ?thesis using False by (simp add: deletejob_def)
qed

text \<open>
  C5. \<^verbatim>\<open>deletejob\<close>: when no slot holds the pid (every pid below 1 included) the call
  returns 0 and the whole shell state, table and allocation counter, is what it was, so
  a second deletion of the same absent pid gives the same result as the first; when a
  slot holds the pid, the first such slot is reset to the cleared job and the allocation
  counter becomes \<^verbatim>\<open>maxjid\<close> of the new table plus one.
\<close>

theorem deletejob_spec:
  "(p < 1 \<or> (\<forall>i < MAXJOBS. pid (job_list s ! i) \<noteq> p) \<longrightarrow>
      deletejob s p = (0, s) \<and> deletejob (snd (deletejob s p)) p = deletejob s p)
   \<and> (1 \<le> p \<and> (\<exists>i < MAXJOBS. pid (job_list s ! i) = p) \<longrightarrow>
      (\<exists>k < MAXJOBS. pid (job_list s ! k) = p \<and> (\<forall>j < k. pid (job_list s ! j) \<noteq> p)
         \<and> deletejob s p =
             (1, s\<lparr>job_list := (job_list s)[k := \<lparr>pid = 0, jid = 0, state = UNDEF, cmdline = []\<rparr>],
                   nextjid := maxjid ((job_list s)[k := \<lparr>pid = 0, jid = 0, state = UNDEF, cmdline = []\<rparr>]) + 1\<rparr>)))"
proof (rule conjI; rule impI)
  assume "p < 1 \<or> (\<forall>i < MAXJOBS. pid (job_list s ! i) \<noteq> p)"
  then have "deletejob s p = (0, s)" by (rule deletejob_absent)
  then show "deletejob s p = (0, s) \<and> deletejob (snd (deletejob s p)) p = deletejob s p"
    by simp
next
  assume a: "1 \<le> p \<and> (\<exists>i < MAXJOBS. pid (job_list s ! i) = p)"
  then have "scan_from (\<lambda>j. pid j = p) (job_list s) 0 \<noteq> None"
    by (auto simp: scan_from_None_iff)
  then obtain k where k: "scan_from (\<lambda>j. pid j = p) (job_list s) 0 = Some k"
    by blast
  then have first: "k < MAXJOBS" "pid (job_list s ! k) = p" "\<forall>j < k. pid (job_list s ! j) \<noteq> p"
    by (simp_all add: scan_from_Some_iff)
  have "deletejob s p =
      (1, s\<lparr>job_list := (job_list s)[k := \<lparr>pid = 0, jid = 0, state = UNDEF, cmdline = []\<rparr>],
            nextjid := maxjid ((job_list s)[k := \<lparr>pid = 0, jid = 0, state = UNDEF, cmdline = []\<rparr>]) + 1\<rparr>)"
    using a k by (simp add: deletejob_def Let_def clearjob_eq empty_slot_def)
  with first show "\<exists>k < MAXJOBS. pid (job_list s ! k) = p \<and> (\<forall>j < k. pid (job_list s ! j) \<noteq> p)
         \<and> deletejob s p =
             (1, s\<lparr>job_list := (job_list s)[k := \<lparr>pid = 0, jid = 0, state = UNDEF, cmdline = []\<rparr>],
                   nextjid := maxjid ((job_list s)[k := \<lparr>pid = 0, jid = 0, state = UNDEF, cmdline = []\<rparr>]) + 1\<rparr>)"
    by blast
qed

lemma replicate_update_same: "(replicate n x)[i := x] = replicate n x"
  by (cases "i < n") (simp_all add: list_update_same_conv list_update_beyond)

lemma maxjid_init: "maxjid (job_list init_shell) = 0"
  by code_simp

text \<open>Deleting pid 5 from the empty table, twice, and from the table that holds it.\<close>

theorem deletejob_spec_witness:
  "deletejob init_shell 5 = (0, init_shell)
   \<and> deletejob (snd (deletejob init_shell 5)) 5 = deletejob init_shell 5
   \<and> deletejob one_job 5 = (1, init_shell)"
proof -
  have z: "0 < MAXJOBS" by (simp add: MAXJOBS_def)
  have "(5::int) < 1 \<or> (\<forall>i < MAXJOBS. pid (job_list init_shell ! i) \<noteq> 5)"
    by (simp add: init_slot empty_slot_def)
  with deletejob_spec [where p = 5 and s = init_shell]
  have a: "deletejob init_shell 5 = (0, init_shell)
      \<and> deletejob (snd (deletejob init_shell 5)) 5 = deletejob init_shell 5"
    by blast
  have p0: "pid (job_list one_job ! 0) = 5"
    by (simp add: one_job_def init_shell_def MAXJOBS_def)
  then have "1 \<le> (5::int) \<and> (\<exists>i < MAXJOBS. pid (job_list one_job ! i) = 5)"
    using z by auto
  with deletejob_spec [where p = 5 and s = one_job]
  obtain k where k: "\<forall>j < k. pid (job_list one_job ! j) \<noteq> 5"
    and r: "deletejob one_job 5 =
      (1, one_job\<lparr>job_list := (job_list one_job)[k := \<lparr>pid = 0, jid = 0, state = UNDEF, cmdline = []\<rparr>],
            nextjid := maxjid ((job_list one_job)[k := \<lparr>pid = 0, jid = 0, state = UNDEF, cmdline = []\<rparr>]) + 1\<rparr>)"
    by blast
  have "k = 0" using k p0 by (cases k) auto
  moreover have "(job_list one_job)[0 := \<lparr>pid = 0, jid = 0, state = UNDEF, cmdline = []\<rparr>]
      = job_list init_shell"
    by (simp add: one_job_def init_shell_def empty_slot_def replicate_update_same)
  ultimately have "deletejob one_job 5 = (1, init_shell)"
    using r maxjid_init by (simp add: one_job_def init_shell_def)
  with a show ?thesis by simp
qed

subsection \<open>The SIGCHLD handler\<close>


lemma getjobpid_Some:
  "getjobpid jl p = Some i \<longleftrightarrow>
     1 \<le> p \<and> i < MAXJOBS \<and> pid (jl ! i) = p \<and> (\<forall>j < i. pid (jl ! j) \<noteq> p)"
  by (auto simp: getjobpid_def scan_from_Some_iff)

lemma getjobpid_None:
  "getjobpid jl p = None \<longleftrightarrow> p < 1 \<or> (\<forall>j < MAXJOBS. pid (jl ! j) \<noteq> p)"
  by (auto simp: getjobpid_def scan_from_None_iff)



lemma deletejob_found:
  assumes "getjobpid (job_list s) p = Some i"
  shows "deletejob s p = (1, s\<lparr>job_list := (job_list s)[i := empty_slot],
           nextjid := maxjid ((job_list s)[i := empty_slot]) + 1\<rparr>)"
proof -
  from assms have "1 \<le> p" and "scan_from (\<lambda>j. pid j = p) (job_list s) 0 = Some i"
    by (auto simp: getjobpid_def split: if_splits)
  then show ?thesis
    by (simp add: deletejob_def Let_def clearjob_eq)
qed


text \<open>
  C10. The stopped branch writes through the result of \<^verbatim>\<open>getjobpid\<close> unchecked: for a
  pid the handler can see (positive), the branch ends in a NULL dereference exactly when
  the lookup finds nothing, which is exactly when no slot of the table holds the pid. When
  some slot holds the pid, the lookup cannot return NULL and the branch completes.
\<close>

theorem reap_stopped_unchecked:
  assumes "0 < p"
  shows "(reap_child s p (Stopped n) = Inl Segfault \<longleftrightarrow> getjobpid (job_list s) p = None)
       \<and> (getjobpid (job_list s) p = None \<longleftrightarrow> (\<forall>i < MAXJOBS. pid (job_list s ! i) \<noteq> p))
       \<and> ((\<exists>i < MAXJOBS. pid (job_list s ! i) = p) \<longrightarrow>
            getjobpid (job_list s) p \<noteq> None \<and> (\<exists>s'. reap_child s p (Stopped n) = Inr s'))"
proof -
  have a: "reap_child s p (Stopped n) = Inl Segfault \<longleftrightarrow> getjobpid (job_list s) p = None"
    by (simp add: reap_child_def reap_stopped_def WIFSTOPPED_def WIFSIGNALED_def WIFEXITED_def
        Let_def split: option.splits)
  have b: "getjobpid (job_list s) p = None \<longleftrightarrow> (\<forall>i < MAXJOBS. pid (job_list s ! i) \<noteq> p)"
    using assms by (simp add: getjobpid_None)
  have c: "\<exists>s'. reap_child s p (Stopped n) = Inr s'" if "getjobpid (job_list s) p \<noteq> None"
    using that
    by (auto simp: reap_child_def reap_stopped_def WIFSTOPPED_def WIFSIGNALED_def WIFEXITED_def
        Let_def split: option.splits)
  from a b c show ?thesis by blast
qed




lemma int_dec_examples:
  "int_dec 0 = ''0''" "int_dec 1 = ''1''" "int_dec 2 = ''2''" "int_dec 5 = ''5''" "int_dec 20 = ''20''"
  by code_simp+



text \<open>A stopped child with pid 5: not in the empty table, in the table with one job.\<close>

theorem reap_stopped_unchecked_witness:
  "reap_child init_shell 5 (Stopped 20) = Inl Segfault
   \<and> getjobpid (job_list one_job) 5 \<noteq> None
   \<and> (\<exists>s'. reap_child one_job 5 (Stopped 20) = Inr s')"
proof -
  have p: "(0::int) < 5" by simp
  have "\<forall>i < MAXJOBS. pid (job_list init_shell ! i) \<noteq> 5"
    by (simp add: init_slot empty_slot_def)
  with reap_stopped_unchecked [OF p, of init_shell 20]
  have a: "reap_child init_shell 5 (Stopped 20) = Inl Segfault" by simp
  have "pid (job_list one_job ! 0) = 5" "0 < MAXJOBS"
    by (simp_all add: one_job_def init_shell_def MAXJOBS_def)
  then have "\<exists>i < MAXJOBS. pid (job_list one_job ! i) = 5" by blast
  with reap_stopped_unchecked [OF p, of one_job 20]
  have "getjobpid (job_list one_job) 5 \<noteq> None
      \<and> (\<exists>s'. reap_child one_job 5 (Stopped 20) = Inr s')" by simp
  with a show ?thesis by simp
qed

subsection \<open>listjobs\<close>

lemma listjobs_loop_ok:
  "\<not> failing \<Longrightarrow> listjobs_loop jl failing i acc =
     Inr (acc @ concat (map (\<lambda>k. ''['' @ int_dec (jid (jl ! k)) @ ''] ('' @ int_dec (pid (jl ! k))
                                @ '') '' @ state_label k (state (jl ! k)) @ cmdline (jl ! k)
                                @ [CHR 0x0A])
                           (filter (\<lambda>k. pid (jl ! k) \<noteq> 0) [i..<MAXJOBS])))"
proof (induction jl failing i acc rule: listjobs_loop.induct)
  case (1 jl failing i acc)
  note nf = \<open>\<not> failing\<close>
  show ?case
  proof (cases "i < MAXJOBS")
    case False
    then show ?thesis by (subst listjobs_loop.simps) simp
  next
    case lt: True
    then have upt: "[i..<MAXJOBS] = i # [Suc i..<MAXJOBS]" by (simp add: upt_conv_Cons)
    show ?thesis
    proof (cases "pid (jl ! i) = 0")
      case True
      then show ?thesis
        using lt "1.IH"(2) [OF lt _ nf] by (subst listjobs_loop.simps) (simp add: upt)
    next
      case False
      then show ?thesis
        using lt nf "1.IH"(1) [OF lt False _ _ _ nf]
        by (subst listjobs_loop.simps) (simp add: upt write_fd_def)
    qed
  qed
qed


text \<open>
  C9 fails as stated: a live slot whose state is none of FG, BG and ST is listed with the
  diagnostic text of the \<^verbatim>\<open>default\<close> branch in place of a state label; and a label
  is followed, not preceded, by the spaces that fill it to its width.
\<close>

theorem listjobs_unknown_state_counterexample:
  "listjobs (job_list undef_job) False [] =
     Inr (''[1] (5) listjobs: Internal error: job[0].state=0 ls'' @ [CHR 0x0A])
   \<and> listjobs (job_list one_job) False [] = Inr (''[1] (5) Running    ls &'' @ [CHR 0x0A])"
  by code_simp

text \<open>
  C9, amended. When the writes succeed, \<^verbatim>\<open>listjobs\<close> appends to the sink, in slot
  order, one line \<^verbatim>\<open>[jid] (pid) <label><command line>\<close> for every slot whose pid is not
  0 and nothing for the others. The label is \<^verbatim>\<open>Running\<close>, \<^verbatim>\<open>Foreground\<close> or
  \<^verbatim>\<open>Stopped\<close> for the states BG, FG and ST, written first and filled with spaces on the
  right to eleven characters; for any other state it is the internal-error text naming
  the slot index and the state.
\<close>

theorem listjobs_spec:
  "listjobs jl False acc =
     Inr (acc @ concat (map (\<lambda>k. ''['' @ int_dec (jid (jl ! k)) @ ''] ('' @ int_dec (pid (jl ! k))
                                @ '') '' @ state_label k (state (jl ! k)) @ cmdline (jl ! k)
                                @ [CHR 0x0A])
                           (filter (\<lambda>k. pid (jl ! k) \<noteq> 0) [0..<MAXJOBS])))
   \<and> state_label k BG = ''Running    ''
   \<and> state_label k FG = ''Foreground ''
   \<and> state_label k ST = ''Stopped    ''
   \<and> (st \<noteq> BG \<and> st \<noteq> FG \<and> st \<noteq> ST \<longrightarrow>
        state_label k st =
          ''listjobs: Internal error: job['' @ int_dec (int k) @ ''].state='' @ int_dec st @ '' '')"
proof -
  have "\<not> False" by simp
  from listjobs_loop_ok [OF this, of jl 0 acc]
  show ?thesis
    by (simp add: listjobs_def state_label_def BG_def FG_def ST_def)
qed

text \<open>The listing of the table with one background job, and the label of an unknown state.\<close>

theorem listjobs_spec_witness:
  "listjobs (job_list one_job) False ''tsh> '' =
     Inr (''tsh> [1] (5) Running    ls &'' @ [CHR 0x0A])
   \<and> state_label 0 7 = ''listjobs: Internal error: job[0].state=7 ''"
proof -
  have f: "filter (\<lambda>k. pid (job_list one_job ! k) \<noteq> 0) [0..<MAXJOBS] = [0]"
    by code_simp
  have v: "job_list one_job ! 0 = \<lparr>pid = 5, jid = 1, state = BG, cmdline = ''ls &''\<rparr>"
    by (simp add: one_job_def init_shell_def MAXJOBS_def)
  have d: "int_dec 7 = ''7''" by code_simp
  have "(7::int) \<noteq> BG \<and> 7 \<noteq> FG \<and> 7 \<noteq> ST" by (simp add: BG_def FG_def ST_def)
  with listjobs_spec [where jl = "job_list one_job" and acc = "''tsh> ''" and k = 0 and st = 7]
  show ?thesis
    by (simp add: f v d int_dec_examples)
qed

subsection \<open>parseline and the tokens of the line\<close>

lemma parse_loop_lex:
  "parse_loop buf st tok = run_tokens (fst (lex_line buf)) (snd (lex_line buf)) st tok"
proof (induction buf st tok rule: parse_loop.induct)
  case (1 buf st tok)
  show ?case
  proof (cases "skip_delims buf")
    case Nil
    then show ?thesis
      by (subst parse_loop.simps, subst (1 2) lex_line.simps) (simp add: case_prod_beta)
  next
    case (Cons c cs)
    note sk = Cons
    consider (lt) "c = CHR ''<''" | (gt) "c = CHR ''>''" | (tk) "c \<noteq> CHR ''<''" "c \<noteq> CHR ''>''"
      by blast
    then show ?thesis
    proof cases
      case lt
      show ?thesis
      proof (cases "infile tok = None")
        case True
        with "1.IH"(1) [OF sk lt] sk lt show ?thesis
          by (subst parse_loop.simps, subst (1 2) lex_line.simps) (simp add: case_prod_beta)
      next
        case False
        with sk lt show ?thesis
          by (subst parse_loop.simps, subst (1 2) lex_line.simps) (simp add: case_prod_beta)
      qed
    next
      case gt
      then have ngt: "c \<noteq> CHR ''<''" by simp
      show ?thesis
      proof (cases "outfile tok = None")
        case True
        with "1.IH"(2) [OF sk ngt gt] sk gt show ?thesis
          by (subst parse_loop.simps, subst (1 2) lex_line.simps) (simp add: case_prod_beta)
      next
        case False
        with sk gt show ?thesis
          by (subst parse_loop.simps, subst (1 2) lex_line.simps) (simp add: case_prod_beta)
      qed
    next
      case tk
      show ?thesis
      proof (cases "next_token c cs")
        case None
        with sk tk show ?thesis
          by (subst parse_loop.simps, subst (1 2) lex_line.simps) (simp add: case_prod_beta)
      next
        case (Some x)
        obtain t rest where x: "x = (t, rest)" by (cases x)
        note nt = Some [unfolded x]
        show ?thesis
        proof (cases "record_token st t tok")
          case None
          with sk tk nt show ?thesis
            by (subst parse_loop.simps, subst (1 2) lex_line.simps)
              (simp add: token_text_def case_prod_beta)
        next
          case (Some tok1)
          show ?thesis
          proof (cases "length (argv tok1) \<ge> MAXARGS - 1")
            case True
            with sk tk nt Some show ?thesis
              by (subst parse_loop.simps, subst (1 2) lex_line.simps)
                (simp add: token_text_def case_prod_beta)
          next
            case False
            from "1.IH"(3) [OF sk tk nt [unfolded x [symmetric]] x [symmetric] Some False]
            have "parse_loop rest ST_NORMAL tok1 =
                run_tokens (fst (lex_line rest)) (snd (lex_line rest)) ST_NORMAL tok1" .
            with sk tk nt Some False show ?thesis
              by (subst parse_loop.simps, subst (1 2) lex_line.simps)
                (simp add: token_text_def case_prod_beta)
          qed
        qed
      qed
    qed
  qed
qed

lemma record_token_argv:
  "record_token st t tok = Some tok1 \<Longrightarrow> length (argv tok1) \<le> Suc (length (argv tok))"
  by (auto simp: record_token_def split: if_splits)

lemma record_token_infile:
  "record_token st t tok = Some tok1 \<Longrightarrow> infile tok \<noteq> None \<Longrightarrow> infile tok1 \<noteq> None"
  by (auto simp: record_token_def split: if_splits)

lemma record_token_outfile:
  "record_token st t tok = Some tok1 \<Longrightarrow> outfile tok \<noteq> None \<Longrightarrow> outfile tok1 \<noteq> None"
  by (auto simp: record_token_def split: if_splits)

lemma run_tokens_arg:
  assumes "is_arg t"
  shows "run_tokens (t # ts) u st tok =
     (case record_token st (token_text t) tok of
        None \<Rightarrow> Inl (msg_ambiguous, tok)
      | Some tok1 \<Rightarrow>
          if length (argv tok1) \<ge> MAXARGS - 1 then Inr (ST_NORMAL, tok1)
          else run_tokens ts u ST_NORMAL tok1)"
  using assms by (cases t) (simp_all add: is_arg_def)

lemma token_cases:
  obtains (In) "t = RedirIn" | (Out) "t = RedirOut" | (Arg) "is_arg t"
  by (cases t) (simp_all add: is_arg_def)

subsection \<open>bg and fg with a target that is not in the table\<close>







subsection \<open>Unmatched quotes\<close>

lemma run_tokens_unmatched_msg:
  assumes "length (argv tok) + length (filter is_arg ts) < MAXARGS - 1"
  shows "\<exists>m tok'. run_tokens ts (Some q) st tok = Inl (m, tok')
           \<and> (m = msg_unmatched q \<or> m = msg_ambiguous)"
  using assms
proof (induction ts arbitrary: st tok)
  case Nil
  then show ?case by simp
next
  case (Cons t ts)
  show ?case
  proof (cases t rule: token_cases)
    case In
    have "\<not> is_arg RedirIn" by (simp add: is_arg_def)
    with Cons.prems In have "length (argv tok) + length (filter is_arg ts) < MAXARGS - 1"
      by simp
    from Cons.IH [OF this] In show ?thesis by simp
  next
    case Out
    have "\<not> is_arg RedirOut" by (simp add: is_arg_def)
    with Cons.prems Out have "length (argv tok) + length (filter is_arg ts) < MAXARGS - 1"
      by simp
    from Cons.IH [OF this] Out show ?thesis by simp
  next
    case Arg
    show ?thesis
    proof (cases "record_token st (token_text t) tok")
      case None
      with Arg show ?thesis by (simp add: run_tokens_arg)
    next
      case (Some tok1)
      from record_token_argv [OF Some] Cons.prems Arg
      have b: "length (argv tok1) + length (filter is_arg ts) < MAXARGS - 1" by simp
      then have "\<not> MAXARGS - 1 \<le> length (argv tok1)" by simp
      with Cons.IH [OF b] Some Arg show ?thesis by (simp add: run_tokens_arg)
    qed
  qed
qed

text \<open>
  C8 fails as stated: once 127 arguments are collected the loop stops, and an unmatched
  quote further along the line is never looked at; the line is accepted.
\<close>

theorem unmatched_quote_counterexample:
  "length full_then_quote < MAXLINE_TSH
   \<and> snd (lex_line full_then_quote) = Some (CHR 0x27)
   \<and> fst (parseline (Some full_then_quote) blank_tok) = 0
   \<and> length (argv (fst (snd (parseline (Some full_then_quote) blank_tok)))) = 127"
  by code_simp

text \<open>
  C8, amended. A line in which the splitting into tokens stops at a quote that has no
  matching closing quote, with fewer than 127 word tokens before it: \<^verbatim>\<open>parseline\<close>
  returns -1 after the message for the unmatched quote (or for an ambiguous redirection
  met earlier on the line), and \<^verbatim>\<open>eval\<close> returns at once without reading the token
  structure: apart from the logged message the shell state is unchanged.
\<close>

theorem parseline_unmatched_quote:
  assumes "length line < MAXLINE_TSH"
    and "snd (lex_line line) = Some q"
    and "length (filter is_arg (fst (lex_line line))) < MAXARGS - 1"
  shows "\<exists>m. (m = msg_unmatched q \<or> m = msg_ambiguous)
           \<and> fst (parseline (Some line) tok0) = - 1
           \<and> snd (snd (parseline (Some line) tok0)) = m
           \<and> eval line os tok0 s = Inr (s\<lparr>errs := errs s @ [m]\<rparr>)"
proof -
  let ?t = "tok0\<lparr>infile := None, outfile := None, argv := []\<rparr>"
  have "length (argv ?t) + length (filter is_arg (fst (lex_line line))) < MAXARGS - 1"
    using assms(3) by simp
  from run_tokens_unmatched_msg [OF this, of q ST_NORMAL]
  obtain m tok' where r: "run_tokens (fst (lex_line line)) (Some q) ST_NORMAL ?t = Inl (m, tok')"
    and m: "m = msg_unmatched q \<or> m = msg_ambiguous"
    by blast
  from r assms(2) have pl: "parse_loop line ST_NORMAL ?t = Inl (m, tok')"
    by (simp add: parse_loop_lex)
  then have p: "parseline (Some line) tok0 = (- 1, tok', m)"
    by (simp add: parseline_def)
  from m have "m \<noteq> []" by (auto simp: msg_unmatched_def msg_ambiguous_def)
  with p have "eval line os tok0 s = Inr (s\<lparr>errs := errs s @ [m]\<rparr>)"
    by (simp add: eval_def)
  with p m show ?thesis by simp
qed

text \<open>A line that ends inside a double quote.\<close>

theorem parseline_unmatched_quote_witness:
  "fst (parseline (Some (''echo '' @ [CHR 0x22] @ ''abc'')) blank_tok) = - 1
   \<and> snd (snd (parseline (Some (''echo '' @ [CHR 0x22] @ ''abc'')) blank_tok)) = msg_unmatched (CHR 0x22)
   \<and> eval (''echo '' @ [CHR 0x22] @ ''abc'') quiet_os blank_tok one_job =
       Inr (one_job\<lparr>errs := [msg_unmatched (CHR 0x22)]\<rparr>)"
proof -
  let ?l = "''echo '' @ [CHR 0x22] @ ''abc''"
  have a: "length ?l < MAXLINE_TSH" by (simp add: MAXLINE_TSH_def)
  have b: "snd (lex_line ?l) = Some (CHR 0x22)" by code_simp
  have c: "length (filter is_arg (fst (lex_line ?l))) < MAXARGS - 1" by code_simp
  have d: "snd (snd (parseline (Some ?l) blank_tok)) = msg_unmatched (CHR 0x22)" by code_simp
  have e: "errs one_job = []" by (simp add: one_job_def init_shell_def)
  from parseline_unmatched_quote [OF a b c, of blank_tok quiet_os one_job] d e
  show ?thesis by auto
qed

subsection \<open>Repeated redirection operators\<close>

lemma state_cases:
  assumes "st \<le> (3::nat)"
  obtains "st = 0" | "st = 1" | "st = 2" | "st = 3"
  using assms by arith

lemma or_in: "st \<le> 3 \<Longrightarrow> or st ST_INFILE = (if st = 0 \<or> st = 1 then 1 else 3)"
  by (cases st rule: state_cases) (simp_all add: ST_INFILE_def)

lemma or_out: "st \<le> 3 \<Longrightarrow> or st ST_OUTFILE = (if st = 0 \<or> st = 2 then 2 else 3)"
  by (cases st rule: state_cases) (simp_all add: ST_OUTFILE_def)

lemma not_arg_redir: "\<not> is_arg RedirIn" "\<not> is_arg RedirOut"
  by (simp_all add: is_arg_def)

lemma run_tokens_in_again:
  assumes "infile tok \<noteq> None"
    and "length (argv tok) + length (filter is_arg xs) < MAXARGS - 1"
  shows "\<exists>tok'. run_tokens (xs @ RedirIn # ys) u st tok = Inl (msg_ambiguous, tok')"
  using assms
proof (induction xs arbitrary: st tok)
  case Nil
  then show ?case by simp
next
  case (Cons t xs)
  show ?case
  proof (cases t rule: token_cases)
    case In
    with Cons.prems show ?thesis by simp
  next
    case Out
    with Cons.prems have "length (argv tok) + length (filter is_arg xs) < MAXARGS - 1"
      by (simp add: not_arg_redir)
    from Cons.IH [OF Cons.prems(1) this] Out show ?thesis by simp
  next
    case Arg
    show ?thesis
    proof (cases "record_token st (token_text t) tok")
      case None
      with Arg show ?thesis by (simp add: run_tokens_arg)
    next
      case (Some tok1)
      from record_token_argv [OF Some] Cons.prems Arg
      have b: "length (argv tok1) + length (filter is_arg xs) < MAXARGS - 1" by simp
      then have nb: "\<not> MAXARGS - 1 \<le> length (argv tok1)" by simp
      from record_token_infile [OF Some Cons.prems(1)] have "infile tok1 \<noteq> None" .
      from Cons.IH [OF this b] Some Arg nb show ?thesis by (simp add: run_tokens_arg)
    qed
  qed
qed

lemma run_tokens_in_pending:
  assumes "st = 1 \<or> st = 3 \<or> (st \<le> 3 \<and> infile tok \<noteq> None)"
    and "\<exists>t \<in> set mid. is_arg t"
    and "length (argv tok) + length (filter is_arg mid) < MAXARGS - 1"
  shows "\<exists>tok'. run_tokens (mid @ RedirIn # post) u st tok = Inl (msg_ambiguous, tok')"
  using assms
proof (induction mid arbitrary: st tok)
  case Nil
  then show ?case by simp
next
  case (Cons t mid)
  from Cons.prems(1) have st3: "st \<le> 3" by auto
  show ?case
  proof (cases t rule: token_cases)
    case In
    show ?thesis
    proof (cases "infile tok = None")
      case False
      with In show ?thesis by simp
    next
      case True
      with Cons.prems(1) have "st = 1 \<or> st = 3" by simp
      then have a: "or st ST_INFILE = 1 \<or> or st ST_INFILE = 3
          \<or> (or st ST_INFILE \<le> 3 \<and> infile tok \<noteq> None)"
        using st3 by (simp add: or_in)
      from Cons.prems(2) In have b: "\<exists>t \<in> set mid. is_arg t" by (simp add: not_arg_redir)
      from Cons.prems(3) In have c: "length (argv tok) + length (filter is_arg mid) < MAXARGS - 1"
        by (simp add: not_arg_redir)
      from Cons.IH [OF a b c] In True show ?thesis by simp
    qed
  next
    case Out
    show ?thesis
    proof (cases "outfile tok = None")
      case False
      with Out show ?thesis by simp
    next
      case True
      have a: "or st ST_OUTFILE = 1 \<or> or st ST_OUTFILE = 3
          \<or> (or st ST_OUTFILE \<le> 3 \<and> infile tok \<noteq> None)"
        using st3 Cons.prems(1) by (auto simp: or_out)
      from Cons.prems(2) Out have b: "\<exists>t \<in> set mid. is_arg t" by (simp add: not_arg_redir)
      from Cons.prems(3) Out have c: "length (argv tok) + length (filter is_arg mid) < MAXARGS - 1"
        by (simp add: not_arg_redir)
      from Cons.IH [OF a b c] Out True show ?thesis by simp
    qed
  next
    case Arg
    show ?thesis
    proof (cases "record_token st (token_text t) tok")
      case None
      with Arg show ?thesis by (simp add: run_tokens_arg)
    next
      case (Some tok1)
      from record_token_argv [OF Some] Cons.prems(3) Arg
      have b: "length (argv tok1) + length (filter is_arg mid) < MAXARGS - 1" by simp
      then have nb: "\<not> MAXARGS - 1 \<le> length (argv tok1)" by simp
      have "infile tok1 \<noteq> None"
        using st3 Some Cons.prems(1)
        by (cases st rule: state_cases)
          (auto simp: record_token_def ST_NORMAL_def ST_INFILE_def ST_OUTFILE_def)
      from run_tokens_in_again [OF this b] Some Arg nb show ?thesis
        by (simp add: run_tokens_arg)
    qed
  qed
qed

lemma run_tokens_in_twice:
  assumes "st \<le> 3"
    and "\<exists>t \<in> set mid. is_arg t"
    and "length (argv tok) + length (filter is_arg (pre @ mid)) < MAXARGS - 1"
  shows "\<exists>tok'. run_tokens (pre @ RedirIn # mid @ RedirIn # post) u st tok
           = Inl (msg_ambiguous, tok')"
  using assms
proof (induction pre arbitrary: st tok)
  case Nil
  show ?case
  proof (cases "infile tok = None")
    case False
    then show ?thesis by simp
  next
    case True
    have a: "or st ST_INFILE = 1 \<or> or st ST_INFILE = 3
        \<or> (or st ST_INFILE \<le> 3 \<and> infile tok \<noteq> None)"
      using Nil.prems(1) by (simp add: or_in)
    from Nil.prems(3) have c: "length (argv tok) + length (filter is_arg mid) < MAXARGS - 1"
      by simp
    from run_tokens_in_pending [OF a Nil.prems(2) c] True show ?thesis by simp
  qed
next
  case (Cons t pre)
  show ?case
  proof (cases t rule: token_cases)
    case In
    show ?thesis
    proof (cases "infile tok = None")
      case False
      with In show ?thesis by simp
    next
      case True
      have a: "or st ST_INFILE \<le> 3"
        using Cons.prems(1) by (simp add: or_in)
      from Cons.prems(3) In
      have c: "length (argv tok) + length (filter is_arg (pre @ mid)) < MAXARGS - 1"
        by (simp add: not_arg_redir)
      from Cons.IH [OF a Cons.prems(2) c] In True show ?thesis by simp
    qed
  next
    case Out
    show ?thesis
    proof (cases "outfile tok = None")
      case False
      with Out show ?thesis by simp
    next
      case True
      have a: "or st ST_OUTFILE \<le> 3"
        using Cons.prems(1) by (simp add: or_out)
      from Cons.prems(3) Out
      have c: "length (argv tok) + length (filter is_arg (pre @ mid)) < MAXARGS - 1"
        by (simp add: not_arg_redir)
      from Cons.IH [OF a Cons.prems(2) c] Out True show ?thesis by simp
    qed
  next
    case Arg
    show ?thesis
    proof (cases "record_token st (token_text t) tok")
      case None
      with Arg show ?thesis by (simp add: run_tokens_arg)
    next
      case (Some tok1)
      from record_token_argv [OF Some] Cons.prems(3) Arg
      have b: "length (argv tok1) + length (filter is_arg (pre @ mid)) < MAXARGS - 1" by simp
      then have nb: "\<not> MAXARGS - 1 \<le> length (argv tok1)" by simp
      have "ST_NORMAL \<le> 3" by (simp add: ST_NORMAL_def)
      from Cons.IH [OF this Cons.prems(2) b] Some Arg nb show ?thesis
        by (simp add: run_tokens_arg)
    qed
  qed
qed

lemma run_tokens_out_again:
  assumes "outfile tok \<noteq> None"
    and "length (argv tok) + length (filter is_arg xs) < MAXARGS - 1"
  shows "\<exists>tok'. run_tokens (xs @ RedirOut # ys) u st tok = Inl (msg_ambiguous, tok')"
  using assms
proof (induction xs arbitrary: st tok)
  case Nil
  then show ?case by simp
next
  case (Cons t xs)
  show ?case
  proof (cases t rule: token_cases)
    case Out
    with Cons.prems show ?thesis by simp
  next
    case In
    with Cons.prems have "length (argv tok) + length (filter is_arg xs) < MAXARGS - 1"
      by (simp add: not_arg_redir)
    from Cons.IH [OF Cons.prems(1) this] In show ?thesis by simp
  next
    case Arg
    show ?thesis
    proof (cases "record_token st (token_text t) tok")
      case None
      with Arg show ?thesis by (simp add: run_tokens_arg)
    next
      case (Some tok1)
      from record_token_argv [OF Some] Cons.prems Arg
      have b: "length (argv tok1) + length (filter is_arg xs) < MAXARGS - 1" by simp
      then have nb: "\<not> MAXARGS - 1 \<le> length (argv tok1)" by simp
      from record_token_outfile [OF Some Cons.prems(1)] have "outfile tok1 \<noteq> None" .
      from Cons.IH [OF this b] Some Arg nb show ?thesis by (simp add: run_tokens_arg)
    qed
  qed
qed

lemma run_tokens_out_pending:
  assumes "st = 2 \<or> st = 3 \<or> (st \<le> 3 \<and> outfile tok \<noteq> None)"
    and "\<exists>t \<in> set mid. is_arg t"
    and "length (argv tok) + length (filter is_arg mid) < MAXARGS - 1"
  shows "\<exists>tok'. run_tokens (mid @ RedirOut # post) u st tok = Inl (msg_ambiguous, tok')"
  using assms
proof (induction mid arbitrary: st tok)
  case Nil
  then show ?case by simp
next
  case (Cons t mid)
  from Cons.prems(1) have st3: "st \<le> 3" by auto
  show ?case
  proof (cases t rule: token_cases)
    case Out
    show ?thesis
    proof (cases "outfile tok = None")
      case False
      with Out show ?thesis by simp
    next
      case True
      with Cons.prems(1) have "st = 2 \<or> st = 3" by simp
      then have a: "or st ST_OUTFILE = 2 \<or> or st ST_OUTFILE = 3
          \<or> (or st ST_OUTFILE \<le> 3 \<and> outfile tok \<noteq> None)"
        using st3 by (simp add: or_out)
      from Cons.prems(2) Out have b: "\<exists>t \<in> set mid. is_arg t" by (simp add: not_arg_redir)
      from Cons.prems(3) Out have c: "length (argv tok) + length (filter is_arg mid) < MAXARGS - 1"
        by (simp add: not_arg_redir)
      from Cons.IH [OF a b c] Out True show ?thesis by simp
    qed
  next
    case In
    show ?thesis
    proof (cases "infile tok = None")
      case False
      with In show ?thesis by simp
    next
      case True
      have a: "or st ST_INFILE = 2 \<or> or st ST_INFILE = 3
          \<or> (or st ST_INFILE \<le> 3 \<and> outfile tok \<noteq> None)"
        using st3 Cons.prems(1) by (auto simp: or_in)
      from Cons.prems(2) In have b: "\<exists>t \<in> set mid. is_arg t" by (simp add: not_arg_redir)
      from Cons.prems(3) In have c: "length (argv tok) + length (filter is_arg mid) < MAXARGS - 1"
        by (simp add: not_arg_redir)
      from Cons.IH [OF a b c] In True show ?thesis by simp
    qed
  next
    case Arg
    show ?thesis
    proof (cases "record_token st (token_text t) tok")
      case None
      with Arg show ?thesis by (simp add: run_tokens_arg)
    next
      case (Some tok1)
      from record_token_argv [OF Some] Cons.prems(3) Arg
      have b: "length (argv tok1) + length (filter is_arg mid) < MAXARGS - 1" by simp
      then have nb: "\<not> MAXARGS - 1 \<le> length (argv tok1)" by simp
      have "outfile tok1 \<noteq> None"
        using st3 Some Cons.prems(1)
        by (cases st rule: state_cases)
          (auto simp: record_token_def ST_NORMAL_def ST_INFILE_def ST_OUTFILE_def)
      from run_tokens_out_again [OF this b] Some Arg nb show ?thesis
        by (simp add: run_tokens_arg)
    qed
  qed
qed

lemma run_tokens_out_twice:
  assumes "st \<le> 3"
    and "\<exists>t \<in> set mid. is_arg t"
    and "length (argv tok) + length (filter is_arg (pre @ mid)) < MAXARGS - 1"
  shows "\<exists>tok'. run_tokens (pre @ RedirOut # mid @ RedirOut # post) u st tok
           = Inl (msg_ambiguous, tok')"
  using assms
proof (induction pre arbitrary: st tok)
  case Nil
  show ?case
  proof (cases "outfile tok = None")
    case False
    then show ?thesis by simp
  next
    case True
    have a: "or st ST_OUTFILE = 2 \<or> or st ST_OUTFILE = 3
        \<or> (or st ST_OUTFILE \<le> 3 \<and> outfile tok \<noteq> None)"
      using Nil.prems(1) by (simp add: or_out)
    from Nil.prems(3) have c: "length (argv tok) + length (filter is_arg mid) < MAXARGS - 1"
      by simp
    from run_tokens_out_pending [OF a Nil.prems(2) c] True show ?thesis by simp
  qed
next
  case (Cons t pre)
  show ?case
  proof (cases t rule: token_cases)
    case Out
    show ?thesis
    proof (cases "outfile tok = None")
      case False
      with Out show ?thesis by simp
    next
      case True
      have a: "or st ST_OUTFILE \<le> 3"
        using Cons.prems(1) by (simp add: or_out)
      from Cons.prems(3) Out
      have c: "length (argv tok) + length (filter is_arg (pre @ mid)) < MAXARGS - 1"
        by (simp add: not_arg_redir)
      from Cons.IH [OF a Cons.prems(2) c] Out True show ?thesis by simp
    qed
  next
    case In
    show ?thesis
    proof (cases "infile tok = None")
      case False
      with In show ?thesis by simp
    next
      case True
      have a: "or st ST_INFILE \<le> 3"
        using Cons.prems(1) by (simp add: or_in)
      from Cons.prems(3) In
      have c: "length (argv tok) + length (filter is_arg (pre @ mid)) < MAXARGS - 1"
        by (simp add: not_arg_redir)
      from Cons.IH [OF a Cons.prems(2) c] In True show ?thesis by simp
    qed
  next
    case Arg
    show ?thesis
    proof (cases "record_token st (token_text t) tok")
      case None
      with Arg show ?thesis by (simp add: run_tokens_arg)
    next
      case (Some tok1)
      from record_token_argv [OF Some] Cons.prems(3) Arg
      have b: "length (argv tok1) + length (filter is_arg (pre @ mid)) < MAXARGS - 1" by simp
      then have nb: "\<not> MAXARGS - 1 \<le> length (argv tok1)" by simp
      have "ST_NORMAL \<le> 3" by (simp add: ST_NORMAL_def)
      from Cons.IH [OF this Cons.prems(2) b] Some Arg nb show ?thesis
        by (simp add: run_tokens_arg)
    qed
  qed
qed



text \<open>
  C7 fails as stated. Two \<^verbatim>\<open><\<close> in a row are accepted, because the test for a repeated
  operator looks at the file name, which is not yet set; and once 127 arguments are
  collected the loop stops before it reaches the redirections that follow.
\<close>

theorem repeated_redirection_counterexample:
  "fst (lex_line ''cat < < a'') = [Word ''cat'', RedirIn, RedirIn, Word ''a'']
   \<and> parseline (Some ''cat < < a'') blank_tok =
       (0, blank_tok\<lparr>argv := [''cat''], infile := Some ''a''\<rparr>, [])
   \<and> length full_then_redirs < MAXLINE_TSH
   \<and> drop 127 (fst (lex_line full_then_redirs)) = [RedirIn, Word ''b'', RedirIn, Word ''c'']
   \<and> fst (parseline (Some full_then_redirs) blank_tok) = 0
   \<and> infile (fst (snd (parseline (Some full_then_redirs) blank_tok))) = None"
  by code_simp

text \<open>
  C7, amended. A line whose tokens hold the same redirection operator twice with at least
  one word or quoted token between the two, and fewer than 127 word or quoted tokens
  before the second: \<^verbatim>\<open>parseline\<close> returns -1 after the message
  \<^verbatim>\<open>Error: Ambiguous I/O redirection\<close>.
\<close>

theorem parseline_repeated_redirection:
  assumes "length line < MAXLINE_TSH"
    and "r = RedirIn \<or> r = RedirOut"
    and "fst (lex_line line) = pre @ r # mid @ r # post"
    and "\<exists>t \<in> set mid. is_arg t"
    and "length (filter is_arg (pre @ mid)) < MAXARGS - 1"
  shows "fst (parseline (Some line) tok0) = - 1
       \<and> snd (snd (parseline (Some line) tok0)) = msg_ambiguous"
proof -
  let ?t = "tok0\<lparr>infile := None, outfile := None, argv := []\<rparr>"
  have st: "ST_NORMAL \<le> 3" by (simp add: ST_NORMAL_def)
  have b: "length (argv ?t) + length (filter is_arg (pre @ mid)) < MAXARGS - 1"
    using assms(5) by simp
  have "\<exists>tok'. run_tokens (pre @ r # mid @ r # post) (snd (lex_line line)) ST_NORMAL ?t
           = Inl (msg_ambiguous, tok')"
    using assms(2)
  proof
    assume "r = RedirIn"
    with run_tokens_in_twice [OF st assms(4) b] show ?thesis by simp
  next
    assume "r = RedirOut"
    with run_tokens_out_twice [OF st assms(4) b] show ?thesis by simp
  qed
  then obtain tok' where "parse_loop line ST_NORMAL ?t = Inl (msg_ambiguous, tok')"
    using assms(3) by (auto simp: parse_loop_lex)
  then show ?thesis by (simp add: parseline_def)
qed

text \<open>A repeated input redirection and a repeated output redirection.\<close>

theorem parseline_repeated_redirection_witness:
  "fst (parseline (Some ''cat < a < b'') blank_tok) = - 1
   \<and> snd (snd (parseline (Some ''cat < a < b'') blank_tok)) = msg_ambiguous
   \<and> fst (parseline (Some ''ls >x -l > y'') blank_tok) = - 1
   \<and> snd (snd (parseline (Some ''ls >x -l > y'') blank_tok)) = msg_ambiguous"
proof -
  have l: "length ''cat < a < b'' < MAXLINE_TSH" "length ''ls >x -l > y'' < MAXLINE_TSH"
    by (simp_all add: MAXLINE_TSH_def)
  have t1: "fst (lex_line ''cat < a < b'') = [Word ''cat''] @ RedirIn # [Word ''a''] @ RedirIn # [Word ''b'']"
    by code_simp
  have t2: "fst (lex_line ''ls >x -l > y'') =
      [Word ''ls''] @ RedirOut # [Word ''x'', Word ''-l''] @ RedirOut # [Word ''y'']"
    by code_simp
  have m1: "\<exists>t \<in> set [Word ''a'']. is_arg t" by (simp add: is_arg_def)
  have m2: "\<exists>t \<in> set [Word ''x'', Word ''-l'']. is_arg t" by (simp add: is_arg_def)
  have b1: "length (filter is_arg ([Word ''cat''] @ [Word ''a''])) < MAXARGS - 1"
    by (simp add: is_arg_def MAXARGS_def)
  have b2: "length (filter is_arg ([Word ''ls''] @ [Word ''x'', Word ''-l''])) < MAXARGS - 1"
    by (simp add: is_arg_def MAXARGS_def)
  have r1: "RedirIn = RedirIn \<or> RedirIn = RedirOut" by simp
  have r2: "RedirOut = RedirIn \<or> RedirOut = RedirOut" by simp
  from parseline_repeated_redirection [OF l(1) r1 t1 m1 b1, of blank_tok]
       parseline_repeated_redirection [OF l(2) r2 t2 m2 b2, of blank_tok]
  show ?thesis by simp
qed

subsection \<open>The background marker\<close>

lemma arg_words_arg:
  "is_arg t \<Longrightarrow> arg_words (t # ts) pending =
     (if pending then arg_words ts False else token_text t # arg_words ts False)"
  by (cases t) (simp_all add: is_arg_def token_text_def)

lemma run_tokens_argv:
  assumes "run_tokens ts u st tok = Inr (st', tok')"
    and "length (argv tok) < MAXARGS - 1" and "st \<le> 3"
  shows "argv tok' = take (MAXARGS - 1) (argv tok @ arg_words ts (st \<noteq> ST_NORMAL))"
  using assms
proof (induction ts arbitrary: st tok)
  case Nil
  then show ?case by (simp split: option.splits)
next
  case (Cons t ts)
  show ?case
  proof (cases t rule: token_cases)
    case In
    from Cons.prems(1) In have i: "infile tok = None"
      and r: "run_tokens ts u (or st ST_INFILE) tok = Inr (st', tok')"
      by (simp_all split: if_splits)
    have "or st ST_INFILE \<le> 3" "or st ST_INFILE \<noteq> ST_NORMAL"
      using Cons.prems(3) by (simp_all add: or_in ST_NORMAL_def)
    with Cons.IH [OF r Cons.prems(2)] In show ?thesis by simp
  next
    case Out
    from Cons.prems(1) Out have i: "outfile tok = None"
      and r: "run_tokens ts u (or st ST_OUTFILE) tok = Inr (st', tok')"
      by (simp_all split: if_splits)
    have "or st ST_OUTFILE \<le> 3" "or st ST_OUTFILE \<noteq> ST_NORMAL"
      using Cons.prems(3) by (simp_all add: or_out ST_NORMAL_def)
    with Cons.IH [OF r Cons.prems(2)] Out show ?thesis by simp
  next
    case Arg
    from Cons.prems(1) Arg obtain tok1 where
      rt: "record_token st (token_text t) tok = Some tok1"
      by (auto simp: run_tokens_arg split: option.splits)
    have n3: "ST_NORMAL \<le> 3" by (simp add: ST_NORMAL_def)
    show ?thesis
    proof (cases "st = ST_NORMAL")
      case True
      with rt have a1: "argv tok1 = argv tok @ [token_text t]"
        by (auto simp: record_token_def)
      show ?thesis
      proof (cases "MAXARGS - 1 \<le> length (argv tok1)")
        case full: True
        with Cons.prems(1) Arg rt have "tok' = tok1" by (simp add: run_tokens_arg)
        moreover from full a1 Cons.prems(2) have "length (argv tok1) = MAXARGS - 1" by simp
        ultimately show ?thesis using a1 True Arg by (simp add: arg_words_arg)
      next
        case False
        with Cons.prems(1) Arg rt
        have r: "run_tokens ts u ST_NORMAL tok1 = Inr (st', tok')"
          by (simp add: run_tokens_arg)
        from False have "length (argv tok1) < MAXARGS - 1" by simp
        from Cons.IH [OF r this n3] a1 True Arg show ?thesis by (simp add: arg_words_arg)
      qed
    next
      case False
      with rt have a1: "argv tok1 = argv tok"
        by (auto simp: record_token_def split: if_splits)
      with Cons.prems(2) have nf: "\<not> MAXARGS - 1 \<le> length (argv tok1)" by simp
      with Cons.prems(1) Arg rt
      have r: "run_tokens ts u ST_NORMAL tok1 = Inr (st', tok')"
        by (simp add: run_tokens_arg)
      from nf have "length (argv tok1) < MAXARGS - 1" by simp
      from Cons.IH [OF r this n3] a1 False Arg show ?thesis by (simp add: arg_words_arg)
    qed
  qed
qed

text \<open>
  C6 fails as stated: the test reads only the first character of the last argument, so a
  last argument that merely begins with \<^verbatim>\<open>&\<close>, or a quoted \<^verbatim>\<open>&\<close>, marks the line as
  background and is removed; and a blank line returns 1.
\<close>

theorem background_marker_counterexample:
  "fst (lex_line ''ls &x'') = [Word ''ls'', Word ''&x'']
   \<and> parseline (Some ''ls &x'') blank_tok = (1, blank_tok\<lparr>argv := [''ls'']\<rparr>, [])
   \<and> fst (lex_line (''ls '' @ [CHR 0x22] @ ''&'' @ [CHR 0x22])) = [Word ''ls'', Quoted ''&'']
   \<and> parseline (Some (''ls '' @ [CHR 0x22] @ ''&'' @ [CHR 0x22])) blank_tok =
       (1, blank_tok\<lparr>argv := [''ls'']\<rparr>, [])
   \<and> parseline (Some '''') blank_tok = (1, blank_tok, [])"
  by code_simp

text \<open>
  C6, amended. Let \<open>args\<close> be the arguments of a successfully parsed line: its word and
  quoted tokens other than the file names of redirections, up to the first 127. When
  there are none (a blank line) the result is 1 with an empty argument list. Otherwise the
  result is 1 if the last argument begins with the character \<^verbatim>\<open>&\<close> and 0 if not, and
  the argument list returned is \<open>args\<close> without its last element in the first case and
  \<open>args\<close> itself in the second.
\<close>

theorem parseline_background:
  assumes "length line < MAXLINE_TSH"
    and "parseline (Some line) tok0 = (bg, tok, msg)" and "bg \<noteq> - 1"
    and "args = take (MAXARGS - 1) (arg_words (fst (lex_line line)) False)"
  shows "(args = [] \<longrightarrow> bg = 1 \<and> argv tok = [])
       \<and> (args \<noteq> [] \<longrightarrow>
            bg = (if starts_with_amp (last args) then 1 else 0)
            \<and> argv tok = (if starts_with_amp (last args) then butlast args else args))"
proof -
  let ?t = "tok0\<lparr>infile := None, outfile := None, argv := []\<rparr>"
  from assms(2,3) obtain st tk where
    pl: "parse_loop line ST_NORMAL ?t = Inr (st, tk)"
    by (auto simp: parseline_def split: sum.splits prod.splits)
  then have "run_tokens (fst (lex_line line)) (snd (lex_line line)) ST_NORMAL ?t = Inr (st, tk)"
    by (simp add: parse_loop_lex)
  from run_tokens_argv [OF this]
  have a: "argv tk = args"
    by (simp add: assms(4) MAXARGS_def ST_NORMAL_def)
  from assms(2,3) pl have n: "st = ST_NORMAL"
    by (auto simp: parseline_def split: if_splits)
  show ?thesis
    using assms(2) pl n a
    by (auto simp: parseline_def Let_def split: if_splits)
qed

text \<open>A line with the marker, a line without it, and a blank line.\<close>

theorem parseline_background_witness:
  "parseline (Some ''sleep 5 &'') blank_tok = (1, blank_tok\<lparr>argv := [''sleep'', ''5'']\<rparr>, [])
   \<and> parseline (Some ''ls > out -l'') blank_tok =
       (0, blank_tok\<lparr>argv := [''ls'', ''-l''], outfile := Some ''out''\<rparr>, [])
   \<and> fst (parseline (Some ''  '') blank_tok) = 1"
proof -
  have l: "length ''sleep 5 &'' < MAXLINE_TSH" "length ''ls > out -l'' < MAXLINE_TSH"
    "length ''  '' < MAXLINE_TSH"
    by (simp_all add: MAXLINE_TSH_def)
  have p1: "parseline (Some ''sleep 5 &'') blank_tok =
      (1, blank_tok\<lparr>argv := [''sleep'', ''5'']\<rparr>, [])" by code_simp
  have p2: "parseline (Some ''ls > out -l'') blank_tok =
      (0, blank_tok\<lparr>argv := [''ls'', ''-l''], outfile := Some ''out''\<rparr>, [])" by code_simp
  have p3: "parseline (Some ''  '') blank_tok = (1, blank_tok, [])" by code_simp
  have a1: "[''sleep'', ''5'', ''&''] = take (MAXARGS - 1) (arg_words (fst (lex_line ''sleep 5 &'')) False)"
    by code_simp
  have a2: "[''ls'', ''-l''] = take (MAXARGS - 1) (arg_words (fst (lex_line ''ls > out -l'')) False)"
    by code_simp
  have a3: "[] = take (MAXARGS - 1) (arg_words (fst (lex_line ''  '')) False)"
    by code_simp
  have w1: "(1::int) \<noteq> - 1" "(0::int) \<noteq> - 1" by simp_all
  from parseline_background [OF l(1) p1 w1(1) a1] parseline_background [OF l(2) p2 w1(2) a2]
       parseline_background [OF l(3) p3 w1(1) a3] p1 p2 p3
  show ?thesis by simp
qed

subsection \<open>At most one foreground job\<close>

lemma initjobs_loop_length: "length (initjobs_loop jl i) = length jl"
proof (induction jl i rule: initjobs_loop.induct)
  case (1 jl i)
  show ?case
  proof (cases "i < MAXJOBS")
    case True
    with "1.IH" [OF True] show ?thesis by (subst initjobs_loop.simps) simp
  next
    case False
    then show ?thesis by (subst initjobs_loop.simps) simp
  qed
qed

lemma initjobs_loop_nth:
  assumes "length jl = MAXJOBS" and "k < MAXJOBS"
  shows "initjobs_loop jl i ! k = (if i \<le> k then empty_slot else jl ! k)"
  using assms
proof (induction jl i rule: initjobs_loop.induct)
  case (1 jl i)
  show ?case
  proof (cases "i < MAXJOBS")
    case True
    have "initjobs_loop jl i ! k = initjobs_loop (jl[i := clearjob (jl ! i)]) (Suc i) ! k"
      using True by (subst initjobs_loop.simps) simp
    also have "\<dots> = (if Suc i \<le> k then empty_slot else (jl[i := clearjob (jl ! i)]) ! k)"
      using "1.IH" [OF True] "1.prems" by simp
    also have "\<dots> = (if i \<le> k then empty_slot else jl ! k)"
      using "1.prems" True by (auto simp: clearjob_eq nth_list_update)
    finally show ?thesis .
  next
    case False
    with "1.prems" show ?thesis by (subst initjobs_loop.simps) simp
  qed
qed

lemma initjobs_cleared:
  assumes "length jl = MAXJOBS"
  shows "length (initjobs jl) = MAXJOBS" and "k < MAXJOBS \<Longrightarrow> initjobs jl ! k = empty_slot"
  using assms by (simp_all add: initjobs_def initjobs_loop_length initjobs_loop_nth)

lemma table_ok_state:
  assumes "table_ok jl C" and "pid (jl ! i) \<noteq> 0 \<or> st \<noteq> FG"
  shows "table_ok (jl[i := (jl ! i)\<lparr>state := st\<rparr>]) C"
proof -
  from assms(1) have len: "length jl = MAXJOBS" by (simp add: table_ok_def)
  have f: "\<And>k. k < MAXJOBS \<Longrightarrow>
      pid (jl[i := (jl ! i)\<lparr>state := st\<rparr>] ! k) = pid (jl ! k)
      \<and> jid (jl[i := (jl ! i)\<lparr>state := st\<rparr>] ! k) = jid (jl ! k)
      \<and> state (jl[i := (jl ! i)\<lparr>state := st\<rparr>] ! k) = (if k = i then st else state (jl ! k))"
    using len by (auto simp: nth_list_update)
  show ?thesis
    using assms unfolding table_ok_def by (auto simp: f)
qed

lemma table_ok_clear:
  assumes "table_ok jl C" and "i < MAXJOBS"
  shows "table_ok (jl[i := empty_slot]) (C - {pid (jl ! i)})"
proof -
  from assms(1) have len: "length jl = MAXJOBS" by (simp add: table_ok_def)
  have f: "\<And>k. k < MAXJOBS \<Longrightarrow>
      jl[i := empty_slot] ! k = (if k = i then empty_slot else jl ! k)"
    using len by (auto simp: nth_list_update)
  have e: "pid empty_slot = 0" "jid empty_slot = 0" "state empty_slot = UNDEF" "UNDEF \<noteq> FG"
    by (simp_all add: empty_slot_def UNDEF_def FG_def)
  from assms(1) have u: "\<And>k. k < MAXJOBS \<Longrightarrow> pid (jl ! k) = pid (jl ! i) \<Longrightarrow> pid (jl ! k) \<noteq> 0
      \<Longrightarrow> k = i"
    using assms(2) unfolding table_ok_def by blast
  show ?thesis
    unfolding table_ok_def
  proof (intro conjI allI impI)
    show "length (jl[i := empty_slot]) = MAXJOBS" using len by simp
  next
    fix k assume "k < MAXJOBS" "pid (jl[i := empty_slot] ! k) = 0"
    then show "jid (jl[i := empty_slot] ! k) = 0"
      using assms(1) e unfolding table_ok_def by (auto simp: f split: if_splits)
  next
    fix k assume "k < MAXJOBS" "pid (jl[i := empty_slot] ! k) = 0"
    then show "state (jl[i := empty_slot] ! k) \<noteq> FG"
      using assms(1) e unfolding table_ok_def by (auto simp: f split: if_splits)
  next
    fix k assume "k < MAXJOBS"
    then show "0 \<le> pid (jl[i := empty_slot] ! k)"
      using assms(1) e unfolding table_ok_def by (auto simp: f)
  next
    fix k j assume "k < MAXJOBS" "j < MAXJOBS"
      "pid (jl[i := empty_slot] ! k) = pid (jl[i := empty_slot] ! j) \<and> pid (jl[i := empty_slot] ! k) \<noteq> 0"
    then show "k = j"
      using assms(1) e unfolding table_ok_def by (auto simp: f split: if_splits)
  next
    fix k assume k: "k < MAXJOBS" "pid (jl[i := empty_slot] ! k) \<noteq> 0"
    then have ki: "k \<noteq> i" using e by (auto simp: f)
    with k have nz: "pid (jl ! k) \<noteq> 0" by (simp add: f)
    with k assms(1) have "pid (jl ! k) \<in> C" unfolding table_ok_def by blast
    moreover have "pid (jl ! k) \<noteq> pid (jl ! i)" using u [OF k(1) _ nz] ki by blast
    ultimately show "pid (jl[i := empty_slot] ! k) \<in> C - {pid (jl ! i)}"
      using k ki by (simp add: f)
  qed
qed

lemma table_ok_mono: "table_ok jl C \<Longrightarrow> C \<subseteq> D \<Longrightarrow> table_ok jl D"
  unfolding table_ok_def by blast

lemma table_ok_add:
  assumes "table_ok jl C" and "k < MAXJOBS" and "pid (jl ! k) = 0" and "0 < p" and "p \<notin> C"
  shows "table_ok (jl[k := \<lparr>pid = p, jid = j, state = st, cmdline = cmd\<rparr>]) (insert p C)"
proof -
  let ?n = "\<lparr>pid = p, jid = j, state = st, cmdline = cmd\<rparr>"
  from assms(1) have len: "length jl = MAXJOBS" by (simp add: table_ok_def)
  have f: "\<And>i. i < MAXJOBS \<Longrightarrow> jl[k := ?n] ! i = (if i = k then ?n else jl ! i)"
    using len by (auto simp: nth_list_update)
  from assms(1,5) have fresh: "\<And>i. i < MAXJOBS \<Longrightarrow> pid (jl ! i) \<noteq> p"
    using assms(4) unfolding table_ok_def by (metis less_irrefl)
  show ?thesis
    unfolding table_ok_def
  proof (intro conjI allI impI)
    show "length (jl[k := ?n]) = MAXJOBS" using len by simp
  next
    fix i assume "i < MAXJOBS" "pid (jl[k := ?n] ! i) = 0"
    then show "jid (jl[k := ?n] ! i) = 0"
      using assms(1,4) unfolding table_ok_def by (auto simp: f split: if_splits)
  next
    fix i assume "i < MAXJOBS" "pid (jl[k := ?n] ! i) = 0"
    then show "state (jl[k := ?n] ! i) \<noteq> FG"
      using assms(1,4) unfolding table_ok_def by (auto simp: f split: if_splits)
  next
    fix i assume "i < MAXJOBS"
    then show "0 \<le> pid (jl[k := ?n] ! i)"
      using assms(1,4) unfolding table_ok_def by (auto simp: f)
  next
    fix i i' assume "i < MAXJOBS" "i' < MAXJOBS"
      "pid (jl[k := ?n] ! i) = pid (jl[k := ?n] ! i') \<and> pid (jl[k := ?n] ! i) \<noteq> 0"
    then show "i = i'"
      using assms(1) fresh unfolding table_ok_def by (auto simp: f split: if_splits)
  next
    fix i assume "i < MAXJOBS" "pid (jl[k := ?n] ! i) \<noteq> 0"
    then show "pid (jl[k := ?n] ! i) \<in> insert p C"
      using assms(1) unfolding table_ok_def by (auto simp: f split: if_splits)
  qed
qed

lemma table_ok_remove:
  assumes "table_ok jl C" and "\<forall>i < MAXJOBS. pid (jl ! i) \<noteq> 0 \<longrightarrow> pid (jl ! i) \<noteq> p"
  shows "table_ok jl (C - {p})"
  using assms unfolding table_ok_def by auto

lemma mode_ok_shrink:
  assumes "mode_ok jl m"
    and "\<forall>k < MAXJOBS. state (jl' ! k) = FG \<longrightarrow> state (jl ! k) = FG \<and> pid (jl' ! k) = pid (jl ! k)"
  shows "mode_ok jl' m"
  using assms unfolding mode_ok_def by (cases m) auto

lemma deletejob_table:
  "((p < 1 \<or> (\<forall>i < MAXJOBS. pid (job_list s ! i) \<noteq> p))
      \<and> job_list (snd (deletejob s p)) = job_list s)
   \<or> (\<exists>k < MAXJOBS. pid (job_list s ! k) = p \<and> 1 \<le> p
         \<and> job_list (snd (deletejob s p)) = (job_list s)[k := empty_slot])"
proof (cases "getjobpid (job_list s) p")
  case None
  then have a: "p < 1 \<or> (\<forall>i < MAXJOBS. pid (job_list s ! i) \<noteq> p)"
    by (simp add: getjobpid_None)
  then have "deletejob s p = (0, s)" by (rule deletejob_absent)
  with a show ?thesis by simp
next
  case (Some k)
  then have "k < MAXJOBS" "pid (job_list s ! k) = p" "1 \<le> p"
    by (simp_all add: getjobpid_Some)
  with deletejob_found [OF Some] show ?thesis by auto
qed

lemma addjob_table:
  "job_list (snd (addjob s p st cmd)) = job_list s
   \<or> (\<exists>k < MAXJOBS. pid (job_list s ! k) = 0 \<and> 1 \<le> p
         \<and> job_list (snd (addjob s p st cmd)) =
             (job_list s)[k := \<lparr>pid = p, jid = nextjid s, state = st, cmdline = cmd\<rparr>])"
proof (cases "p < 1 \<or> scan_from (\<lambda>j. pid j = 0) (job_list s) 0 = None")
  case True
  then have "p < 1 \<or> (\<forall>i < MAXJOBS. pid (job_list s ! i) \<noteq> 0)"
    by (auto simp: scan_from_None_iff)
  from addjob_rejected [OF this] show ?thesis by simp
next
  case False
  then obtain k where p: "1 \<le> p" and k: "scan_from (\<lambda>j. pid j = 0) (job_list s) 0 = Some k"
    by auto
  from k have "k < MAXJOBS" "pid (job_list s ! k) = 0" by (simp_all add: scan_from_Some_iff)
  with addjob_accepted(2) [OF p k] p show ?thesis by auto
qed

lemma reap_child_table:
  assumes "reap_child s p w = Inr s'"
  shows "(WIFSTOPPED w \<and> (\<exists>i < MAXJOBS. pid (job_list s ! i) = p \<and> 1 \<le> p
            \<and> job_list s' = (job_list s)[i := (job_list s ! i)\<lparr>state := ST\<rparr>]))
       \<or> (\<not> WIFSTOPPED w \<and> job_list s' = job_list (snd (deletejob s p)))"
proof (cases w)
  case (Stopped n)
  from assms Stopped obtain i where i: "getjobpid (job_list s) p = Some i"
    by (auto simp: reap_child_def reap_stopped_def WIFSTOPPED_def split: option.splits)
  with assms Stopped have "job_list s' = (job_list s)[i := (job_list s ! i)\<lparr>state := ST\<rparr>]"
    by (auto simp: reap_child_def reap_stopped_def WIFSTOPPED_def WIFSIGNALED_def WIFEXITED_def
        Let_def)
  with i Stopped show ?thesis by (auto simp: getjobpid_Some WIFSTOPPED_def)
next
  case (Signaled n)
  have "job_list (snd (deletejob (s\<lparr>out := x\<rparr>) p)) = job_list (snd (deletejob s p))" for x
    by (simp add: deletejob_def Let_def split: option.splits)
  with assms Signaled show ?thesis
    by (auto simp: reap_child_def reap_signaled_def WIFSTOPPED_def WIFSIGNALED_def WIFEXITED_def
        Let_def)
next
  case (Exited n)
  with assms show ?thesis
    by (auto simp: reap_child_def WIFSTOPPED_def WIFSIGNALED_def WIFEXITED_def Let_def)
qed

lemma job_of_arg_Some:
  assumes "job_of_arg jl a = Some i" and "table_ok jl C"
  shows "i < MAXJOBS \<and> pid (jl ! i) \<noteq> 0"
proof -
  from assms(1) have "(\<exists>p. getjobpid jl p = Some i) \<or> (\<exists>j. getjobjid jl j = Some i)"
    by (auto simp: job_of_arg_def split: list.splits if_splits)
  then show ?thesis
  proof
    assume "\<exists>p. getjobpid jl p = Some i"
    then show ?thesis by (auto simp: getjobpid_Some)
  next
    assume "\<exists>j. getjobjid jl j = Some i"
    then obtain j where "1 \<le> j" "i < MAXJOBS" "jid (jl ! i) = j"
      by (auto simp: getjobjid_def scan_from_Some_iff split: if_splits)
    with assms(2) show ?thesis unfolding table_ok_def by auto
  qed
qed

lemma update_nth:
  "length jl = MAXJOBS \<Longrightarrow> k < MAXJOBS \<Longrightarrow> jl[i := x] ! k = (if k = i then x else jl ! k)"
  by (auto simp: nth_list_update)

lemma inv_start:
  assumes "length jl0 = MAXJOBS"
  shows "shell_inv \<lparr>sh = \<lparr>job_list = initjobs jl0, nextjid = 1, verbose = v, out = [], errs = [],
                  sent = [], files = []\<rparr>, mode = Prompt, children = {}\<rparr>"
proof -
  have e: "pid empty_slot = 0" "jid empty_slot = 0" "state empty_slot \<noteq> FG"
    by (simp_all add: empty_slot_def UNDEF_def FG_def)
  show ?thesis
    using initjobs_cleared [OF assms] e
    by (simp add: shell_inv_def table_ok_def mode_ok_def)
qed

lemma inv_added:
  assumes "table_ok jl C" and "0 < p" and "p \<notin> C"
    and "jl' = jl \<or> (\<exists>k < MAXJOBS. pid (jl ! k) = 0 \<and> 1 \<le> p
           \<and> jl' = jl[k := \<lparr>pid = p, jid = j, state = st, cmdline = cmd\<rparr>])"
    and "\<forall>i < MAXJOBS. state (jl ! i) \<noteq> FG"
  shows "table_ok jl' (insert p C)"
    and "st \<noteq> FG \<Longrightarrow> mode_ok jl' Prompt"
    and "mode_ok jl' (WaitFg p)"
proof -
  from assms(1) have len: "length jl = MAXJOBS" by (simp add: table_ok_def)
  show "table_ok jl' (insert p C)"
    using assms(4)
  proof
    assume "jl' = jl"
    with assms(1) show ?thesis by (auto intro: table_ok_mono)
  next
    assume "\<exists>k < MAXJOBS. pid (jl ! k) = 0 \<and> 1 \<le> p
           \<and> jl' = jl[k := \<lparr>pid = p, jid = j, state = st, cmdline = cmd\<rparr>]"
    then show ?thesis using table_ok_add [OF assms(1) _ _ assms(2,3)] by auto
  qed
  show "mode_ok jl' Prompt" if "st \<noteq> FG"
    using assms(4,5) that len by (auto simp: mode_ok_def update_nth split: if_splits)
  show "mode_ok jl' (WaitFg p)"
    using assms(4,5) len by (auto simp: mode_ok_def update_nth split: if_splits)
qed

lemma inv_launch_bg:
  assumes "shell_inv \<sigma>" and "mode \<sigma> = Prompt" and "0 < p" and "p \<notin> children \<sigma>"
    and "launch_parent line 1 p evs (sh \<sigma>) = Inr s'"
  shows "shell_inv \<lparr>sh = s', mode = Prompt, children = insert p (children \<sigma>)\<rparr>"
proof -
  from assms(5) have jl: "job_list s' = job_list (snd (addjob (sh \<sigma>) p 2 line))"
    by (auto simp: launch_parent_def Let_def)
  from assms(1,2) have t: "table_ok (job_list (sh \<sigma>)) (children \<sigma>)"
    and m: "\<forall>i < MAXJOBS. state (job_list (sh \<sigma>) ! i) \<noteq> FG"
    by (simp_all add: shell_inv_def mode_ok_def)
  have "(2::int) \<noteq> FG" by (simp add: FG_def)
  from inv_added(1,2) [OF t assms(3,4) addjob_table [of "sh \<sigma>" p 2 line, folded jl] m] this
  show ?thesis by (simp add: shell_inv_def)
qed

lemma inv_launch_fg:
  assumes "shell_inv \<sigma>" and "mode \<sigma> = Prompt" and "0 < p" and "p \<notin> children \<sigma>"
  shows "shell_inv \<lparr>sh = snd (addjob (sh \<sigma>) p (0 + 1) line), mode = WaitFg p,
            children = insert p (children \<sigma>)\<rparr>"
proof -
  from assms(1,2) have t: "table_ok (job_list (sh \<sigma>)) (children \<sigma>)"
    and m: "\<forall>i < MAXJOBS. state (job_list (sh \<sigma>) ! i) \<noteq> FG"
    by (simp_all add: shell_inv_def mode_ok_def)
  from inv_added(1,3) [OF t assms(3,4) addjob_table [of "sh \<sigma>" p 1 line] m]
  show ?thesis by (simp add: shell_inv_def)
qed

lemma inv_cleared:
  assumes "table_ok jl C" and "mode_ok jl m"
    and "((p < 1 \<or> (\<forall>i < MAXJOBS. pid (jl ! i) \<noteq> p)) \<and> jl' = jl)
         \<or> (\<exists>k < MAXJOBS. pid (jl ! k) = p \<and> 1 \<le> p \<and> jl' = jl[k := empty_slot])"
  shows "table_ok jl' C" and "0 < p \<Longrightarrow> table_ok jl' (C - {p})" and "mode_ok jl' m"
proof -
  from assms(1) have len: "length jl = MAXJOBS" by (simp add: table_ok_def)
  have e: "state empty_slot \<noteq> FG" by (simp add: empty_slot_def UNDEF_def FG_def)
  show "table_ok jl' C"
    using assms(3)
  proof
    assume "(p < 1 \<or> (\<forall>i < MAXJOBS. pid (jl ! i) \<noteq> p)) \<and> jl' = jl"
    with assms(1) show ?thesis by simp
  next
    assume "\<exists>k < MAXJOBS. pid (jl ! k) = p \<and> 1 \<le> p \<and> jl' = jl[k := empty_slot]"
    then obtain k where "k < MAXJOBS" "jl' = jl[k := empty_slot]" by blast
    with table_ok_clear [OF assms(1), of k] show ?thesis
      by (auto intro: table_ok_mono)
  qed
  show "table_ok jl' (C - {p})" if "0 < p"
    using assms(3)
  proof
    assume "(p < 1 \<or> (\<forall>i < MAXJOBS. pid (jl ! i) \<noteq> p)) \<and> jl' = jl"
    with that assms(1) show ?thesis by (auto intro: table_ok_remove)
  next
    assume "\<exists>k < MAXJOBS. pid (jl ! k) = p \<and> 1 \<le> p \<and> jl' = jl[k := empty_slot]"
    then obtain k where "k < MAXJOBS" "pid (jl ! k) = p" "jl' = jl[k := empty_slot]" by blast
    with table_ok_clear [OF assms(1), of k] show ?thesis by simp
  qed
  show "mode_ok jl' m"
  proof (rule mode_ok_shrink [OF assms(2)])
    show "\<forall>k < MAXJOBS. state (jl' ! k) = FG \<longrightarrow> state (jl ! k) = FG \<and> pid (jl' ! k) = pid (jl ! k)"
      using assms(3) len e by (auto simp: update_nth split: if_splits)
  qed
qed

lemma inv_state_set:
  assumes "table_ok jl C" and "mode_ok jl m" and "pid (jl ! i) \<noteq> 0" and "st \<noteq> FG"
  shows "table_ok (jl[i := (jl ! i)\<lparr>state := st\<rparr>]) C"
    and "mode_ok (jl[i := (jl ! i)\<lparr>state := st\<rparr>]) m"
proof -
  from assms(1) have len: "length jl = MAXJOBS" by (simp add: table_ok_def)
  show "table_ok (jl[i := (jl ! i)\<lparr>state := st\<rparr>]) C"
    using assms(1,4) by (simp add: table_ok_state)
  show "mode_ok (jl[i := (jl ! i)\<lparr>state := st\<rparr>]) m"
  proof (rule mode_ok_shrink [OF assms(2)])
    show "\<forall>k < MAXJOBS. state (jl[i := (jl ! i)\<lparr>state := st\<rparr>] ! k) = FG \<longrightarrow>
        state (jl ! k) = FG \<and> pid (jl[i := (jl ! i)\<lparr>state := st\<rparr>] ! k) = pid (jl ! k)"
      using len assms(4) by (auto simp: update_nth split: if_splits)
  qed
qed

lemma inv_reap:
  assumes "shell_inv \<sigma>" and "0 < p" and "reap_child (sh \<sigma>) p w = Inr s'"
  shows "shell_inv \<lparr>sh = s', mode = mode \<sigma>,
            children = (if WIFSTOPPED w then children \<sigma> else children \<sigma> - {p})\<rparr>"
proof -
  from assms(1) have t: "table_ok (job_list (sh \<sigma>)) (children \<sigma>)"
    and m: "mode_ok (job_list (sh \<sigma>)) (mode \<sigma>)"
    by (simp_all add: shell_inv_def)
  have st: "ST \<noteq> FG" by (simp add: ST_def FG_def)
  from reap_child_table [OF assms(3)] show ?thesis
  proof
    assume "WIFSTOPPED w \<and> (\<exists>i < MAXJOBS. pid (job_list (sh \<sigma>) ! i) = p \<and> 1 \<le> p
            \<and> job_list s' = (job_list (sh \<sigma>))[i := (job_list (sh \<sigma>) ! i)\<lparr>state := ST\<rparr>])"
    then obtain i where w: "WIFSTOPPED w" and ip: "pid (job_list (sh \<sigma>) ! i) = p"
      and j: "job_list s' = (job_list (sh \<sigma>))[i := (job_list (sh \<sigma>) ! i)\<lparr>state := ST\<rparr>]"
      by blast
    from ip assms(2) have i: "pid (job_list (sh \<sigma>) ! i) \<noteq> 0" by simp
    from inv_state_set [OF t m i st] w j show ?thesis by (simp add: shell_inv_def)
  next
    assume a: "\<not> WIFSTOPPED w \<and> job_list s' = job_list (snd (deletejob (sh \<sigma>) p))"
    from inv_cleared(2,3) [OF t m deletejob_table [of p "sh \<sigma>"]] assms(2) a
    show ?thesis by (simp add: shell_inv_def)
  qed
qed

lemma inv_wait_done:
  assumes "shell_inv \<sigma>" and "mode \<sigma> = WaitFg p" and "p \<noteq> fgpid (job_list (sh \<sigma>))"
  shows "shell_inv (\<sigma>\<lparr>mode := Prompt\<rparr>)"
proof -
  let ?jl = "job_list (sh \<sigma>)"
  from assms(1,2) have m: "\<forall>i < MAXJOBS. state (?jl ! i) = FG \<longrightarrow> pid (?jl ! i) = p"
    by (simp add: shell_inv_def mode_ok_def)
  have "scan_from (\<lambda>j. state j = FG) ?jl 0 = None"
  proof (cases "scan_from (\<lambda>j. state j = FG) ?jl 0")
    case None
    then show ?thesis .
  next
    case (Some k)
    then have "k < MAXJOBS" "state (?jl ! k) = FG" by (simp_all add: scan_from_Some_iff)
    with m have "pid (?jl ! k) = p" by simp
    with Some have "fgpid ?jl = p" by (simp add: fgpid_def)
    with assms(3) show ?thesis by simp
  qed
  then have "\<forall>i < MAXJOBS. state (?jl ! i) \<noteq> FG" by (simp add: scan_from_None_iff)
  with assms(1) show ?thesis by (simp add: shell_inv_def mode_ok_def)
qed

lemma inv_bg:
  assumes "shell_inv \<sigma>" and "bg_handler tok (sh \<sigma>) = Inr s'"
  shows "shell_inv (\<sigma>\<lparr>sh := s'\<rparr>)"
proof -
  let ?jl = "job_list (sh \<sigma>)"
  from assms(1) have t: "table_ok ?jl (children \<sigma>)" and m: "mode_ok ?jl (mode \<sigma>)"
    by (simp_all add: shell_inv_def)
  have b: "BG \<noteq> FG" by (simp add: BG_def FG_def)
  from assms(2) obtain c a r where av: "argv tok = c # a # r"
    by (auto simp: bg_handler_def split: list.splits)
  show ?thesis
  proof (cases "job_of_arg ?jl a")
    case None
    with assms(2) av have "job_list s' = ?jl"
      by (auto simp: bg_handler_def unix_error_def)
    with t m show ?thesis by (simp add: shell_inv_def)
  next
    case (Some i)
    with assms(2) av have j: "job_list s' = ?jl[i := (?jl ! i)\<lparr>state := BG\<rparr>]"
      by (auto simp: bg_handler_def Let_def)
    from job_of_arg_Some [OF Some t] have "pid (?jl ! i) \<noteq> 0" by simp
    from inv_state_set [OF t m this b] j show ?thesis by (simp add: shell_inv_def)
  qed
qed

lemma inv_fg_start:
  assumes "shell_inv \<sigma>" and "mode \<sigma> = Prompt" and "fg_begin tok (sh \<sigma>) = Inr (s', Some i)"
  shows "shell_inv (\<sigma>\<lparr>sh := s', mode := WaitPid i\<rparr>)"
proof -
  let ?jl = "job_list (sh \<sigma>)"
  from assms(1,2) have t: "table_ok ?jl (children \<sigma>)"
    and m: "\<forall>k < MAXJOBS. state (?jl ! k) \<noteq> FG"
    by (simp_all add: shell_inv_def mode_ok_def)
  from t have len: "length ?jl = MAXJOBS" by (simp add: table_ok_def)
  from assms(3) obtain c a r where av: "argv tok = c # a # r"
    by (auto simp: fg_begin_def split: list.splits)
  with assms(3) have f: "job_of_arg ?jl a = Some i"
    and j: "job_list s' = ?jl[i := (?jl ! i)\<lparr>state := FG\<rparr>]"
    by (auto simp: fg_begin_def unix_error_def split: option.splits)
  from job_of_arg_Some [OF f t] have i: "i < MAXJOBS" "pid (?jl ! i) \<noteq> 0" by simp_all
  from i(2) have "table_ok (?jl[i := (?jl ! i)\<lparr>state := FG\<rparr>]) (children \<sigma>)"
    using t by (simp add: table_ok_state)
  moreover have "mode_ok (?jl[i := (?jl ! i)\<lparr>state := FG\<rparr>]) (WaitPid i)"
    using m i(1) len by (auto simp: mode_ok_def update_nth split: if_splits)
  ultimately show ?thesis using j by (simp add: shell_inv_def)
qed

lemma table_ok_unique:
  "table_ok jl C \<Longrightarrow> i < MAXJOBS \<Longrightarrow> j < MAXJOBS \<Longrightarrow> pid (jl ! i) = pid (jl ! j)
     \<Longrightarrow> pid (jl ! i) \<noteq> 0 \<Longrightarrow> i = j"
  unfolding table_ok_def by blast

lemma table_ok_empty_not_fg:
  "table_ok jl C \<Longrightarrow> i < MAXJOBS \<Longrightarrow> pid (jl ! i) = 0 \<Longrightarrow> state (jl ! i) \<noteq> FG"
  unfolding table_ok_def by blast

lemma inv_fg_done:
  assumes "shell_inv \<sigma>" and "mode \<sigma> = WaitPid i"
  shows "shell_inv \<lparr>sh = fg_end i w (sh \<sigma>), mode = Prompt,
            children = (if WIFSTOPPED w then children \<sigma>
                        else children \<sigma> - {pid (job_list (sh \<sigma>) ! i)})\<rparr>"
proof -
  let ?jl = "job_list (sh \<sigma>)"
  from assms have t: "table_ok ?jl (children \<sigma>)"
    and i: "i < MAXJOBS" and m: "\<forall>k < MAXJOBS. state (?jl ! k) = FG \<longrightarrow> k = i"
    by (simp_all add: shell_inv_def mode_ok_def)
  from t have len: "length ?jl = MAXJOBS" by (simp add: table_ok_def)
  have st: "ST \<noteq> FG" by (simp add: ST_def FG_def)
  have e: "state empty_slot \<noteq> FG" by (simp add: empty_slot_def UNDEF_def FG_def)
  show ?thesis
  proof (cases "WIFSTOPPED w")
    case True
    have "table_ok (?jl[i := (?jl ! i)\<lparr>state := ST\<rparr>]) (children \<sigma>)"
      using t st by (simp add: table_ok_state)
    moreover have "mode_ok (?jl[i := (?jl ! i)\<lparr>state := ST\<rparr>]) Prompt"
      using m i len st by (auto simp: mode_ok_def update_nth split: if_splits)
    ultimately show ?thesis using True by (simp add: shell_inv_def fg_end_def)
  next
    case False
    let ?p = "pid (?jl ! i)"
    let ?jl' = "job_list (snd (deletejob (sh \<sigma>) ?p))"
    from t i have p0: "0 \<le> ?p" by (simp add: table_ok_def)
    have "table_ok ?jl' (children \<sigma> - {?p}) \<and> mode_ok ?jl' Prompt"
    proof (cases "?p = 0")
      case True
      have "deletejob (sh \<sigma>) 0 = (0, sh \<sigma>)" by (simp add: deletejob_def)
      with True have same: "?jl' = ?jl" by simp
      from table_ok_empty_not_fg [OF t i True] have "state (?jl ! i) \<noteq> FG" .
      with m have "\<forall>k < MAXJOBS. state (?jl ! k) \<noteq> FG" by blast
      then have "mode_ok ?jl Prompt" by (simp add: mode_ok_def)
      moreover have "\<forall>k < MAXJOBS. pid (?jl ! k) \<noteq> 0 \<longrightarrow> pid (?jl ! k) \<noteq> ?p"
        using True by simp
      from table_ok_remove [OF t this] have "table_ok ?jl (children \<sigma> - {?p})" .
      ultimately show ?thesis by (simp only: same)
    next
      case nz: False
      with p0 have pos: "1 \<le> ?p" by simp
      with i have "\<not> (?p < 1 \<or> (\<forall>k < MAXJOBS. pid (?jl ! k) \<noteq> ?p))" by auto
      with deletejob_table [of ?p "sh \<sigma>"]
      obtain k where k: "k < MAXJOBS" "pid (?jl ! k) = ?p" "?jl' = ?jl[k := empty_slot]"
        by blast
      from table_ok_unique [OF t k(1) i k(2)] nz k(2) have "k = i" by simp
      with k(3) have j: "?jl' = ?jl[i := empty_slot]" by simp
      have "\<forall>k < MAXJOBS. state (?jl[i := empty_slot] ! k) \<noteq> FG"
        using m len e by (auto simp: update_nth split: if_splits)
      then have "mode_ok (?jl[i := empty_slot]) Prompt" by (simp add: mode_ok_def)
      with table_ok_clear [OF t i] show ?thesis by (simp only: j)
    qed
    with False show ?thesis by (simp add: shell_inv_def fg_end_def)
  qed
qed

lemma inv_delete:
  assumes "shell_inv \<sigma>"
  shows "shell_inv (\<sigma>\<lparr>sh := snd (deletejob (sh \<sigma>) p)\<rparr>)"
proof -
  from assms have t: "table_ok (job_list (sh \<sigma>)) (children \<sigma>)"
    and m: "mode_ok (job_list (sh \<sigma>)) (mode \<sigma>)"
    by (simp_all add: shell_inv_def)
  from inv_cleared(1,3) [OF t m deletejob_table [of p "sh \<sigma>"]]
  show ?thesis by (simp add: shell_inv_def)
qed

lemma reach_inv: "reach \<sigma> \<Longrightarrow> shell_inv \<sigma>"
proof (induction rule: reach.induct)
  case (start jl0 v)
  then show ?case by (rule inv_start)
next
  case (launch_bg \<sigma> p line evs s')
  from inv_launch_bg [OF launch_bg.IH launch_bg.hyps(2,3,4,5)] show ?case .
next
  case (launch_fg \<sigma> p line)
  from inv_launch_fg [OF launch_fg.IH launch_fg.hyps(2,3,4)] show ?case .
next
  case (reap \<sigma> p w s')
  from inv_reap [OF reap.IH reap.hyps(2,4)] show ?case .
next
  case (wait_done \<sigma> p)
  from inv_wait_done [OF wait_done.IH wait_done.hyps(2,3)] show ?case .
next
  case (bg \<sigma> tok s')
  from inv_bg [OF bg.IH bg.hyps(3)] show ?case .
next
  case (fg_start \<sigma> tok s' i)
  from inv_fg_start [OF fg_start.IH fg_start.hyps(2,3)] show ?case .
next
  case (fg_done \<sigma> i w)
  from inv_fg_done [OF fg_done.IH fg_done.hyps(2)] show ?case .
next
  case (delete \<sigma> p)
  from inv_delete [OF delete.IH] show ?case .
next
  case (other \<sigma> s')
  then show ?case by (simp add: shell_inv_def)
qed




subsection \<open>eval moves between reachable states\<close>

lemma sys_eta: "\<lparr>sh = sh \<sigma>, mode = mode \<sigma>, children = children \<sigma>\<rparr> = \<sigma>"
  by (cases \<sigma>) simp

lemma sys_prompt: "\<sigma>\<lparr>mode := Prompt\<rparr> = \<lparr>sh = sh \<sigma>, mode = Prompt, children = children \<sigma>\<rparr>"
  by (cases \<sigma>) simp

lemma reach_handler:
  assumes "reach \<sigma>" and "events_ok (children \<sigma>) ev" and "sigchld_handler (sh \<sigma>) ev = Inr s'"
  shows "reach \<lparr>sh = s', mode = mode \<sigma>, children = children_after (children \<sigma>) ev\<rparr>"
  using assms
proof (induction ev arbitrary: \<sigma>)
  case Nil
  then have "s' = sh \<sigma>" by simp
  with Nil.prems(1) show ?case by (simp add: sys_eta)
next
  case (Cons e ev)
  obtain p w where e: "e = (p, w)" by (cases e)
  from Cons.prems(2) e have p: "0 < p" "p \<in> children \<sigma>"
    and ok: "events_ok (if WIFSTOPPED w then children \<sigma> else children \<sigma> - {p}) ev"
    by simp_all
  from Cons.prems(3) e p obtain s1 where s1: "reap_child (sh \<sigma>) p w = Inr s1"
    and rest: "sigchld_handler s1 ev = Inr s'"
    by (auto split: sum.splits)
  let ?\<sigma>1 = "\<lparr>sh = s1, mode = mode \<sigma>,
      children = (if WIFSTOPPED w then children \<sigma> else children \<sigma> - {p})\<rparr>"
  from reach.reap [OF Cons.prems(1) p s1] have r1: "reach ?\<sigma>1" .
  from Cons.IH [OF r1] ok rest e show ?case by simp
qed

lemma reach_wait:
  assumes "reach \<sigma>" and "mode \<sigma> = WaitFg p" and "runs_ok (children \<sigma>) evs"
    and "wait_fg p evs (sh \<sigma>) = Inr s'"
  shows "\<exists>C. reach \<lparr>sh = s', mode = Prompt, children = C\<rparr>"
  using assms
proof (induction evs arbitrary: \<sigma>)
  case Nil
  then have ne: "p \<noteq> fgpid (job_list (sh \<sigma>))" and s: "s' = sh \<sigma>"
    by (auto split: if_splits)
  from reach.wait_done [OF Nil.prems(1,2) ne] s
  have "reach \<lparr>sh = s', mode = Prompt, children = children \<sigma>\<rparr>" by (simp add: sys_prompt)
  then show ?case by blast
next
  case (Cons ev evs)
  show ?case
  proof (cases "p = fgpid (job_list (sh \<sigma>))")
    case False
    with Cons.prems(4) have s: "s' = sh \<sigma>" by simp
    from reach.wait_done [OF Cons.prems(1,2) False] s
    have "reach \<lparr>sh = s', mode = Prompt, children = children \<sigma>\<rparr>" by (simp add: sys_prompt)
    then show ?thesis by blast
  next
    case True
    with Cons.prems(4) obtain s1 where h: "sigchld_handler (sh \<sigma>) ev = Inr s1"
      and w: "wait_fg p evs s1 = Inr s'"
      by (auto split: sum.splits)
    from Cons.prems(3) have ok: "events_ok (children \<sigma>) ev"
      and oks: "runs_ok (children_after (children \<sigma>) ev) evs"
      by simp_all
    let ?\<sigma>1 = "\<lparr>sh = s1, mode = mode \<sigma>, children = children_after (children \<sigma>) ev\<rparr>"
    from reach_handler [OF Cons.prems(1) ok h] have r1: "reach ?\<sigma>1" .
    from Cons.IH [OF r1] Cons.prems(2) oks w show ?thesis by simp
  qed
qed

lemma reach_other:
  assumes "reach \<sigma>" and "job_list s' = job_list (sh \<sigma>)" and "nextjid s' = nextjid (sh \<sigma>)"
    and "mode \<sigma> = Prompt"
  shows "\<exists>C. reach \<lparr>sh = s', mode = Prompt, children = C\<rparr>"
proof -
  from reach.other [OF assms(1,2,3)] assms(4)
  have "reach \<lparr>sh = s', mode = Prompt, children = children \<sigma>\<rparr>"
    by (cases \<sigma>) simp
  then show ?thesis by blast
qed

lemma parseline_ret:
  "parseline l t = (bg, tok, msg) \<Longrightarrow> bg = - 1 \<or> bg = 0 \<or> bg = 1"
  by (auto simp: parseline_def Let_def split: option.splits sum.splits prod.splits if_splits)

lemma fgpid_prompt:
  assumes "shell_inv \<sigma>" and "mode \<sigma> = Prompt"
  shows "fgpid (job_list (sh \<sigma>)) = 0"
proof -
  from assms have "\<forall>i < MAXJOBS. state (job_list (sh \<sigma>) ! i) \<noteq> FG"
    by (simp add: shell_inv_def mode_ok_def)
  then have "scan_from (\<lambda>j. state j = FG) (job_list (sh \<sigma>)) 0 = None"
    by (simp add: scan_from_None_iff)
  then show ?thesis by (simp add: fgpid_def)
qed

lemma wait_fg_other: "p \<noteq> fgpid (job_list s) \<Longrightarrow> wait_fg p evs s = Inr s"
  by (cases evs) simp_all

lemma reach_launch:
  assumes "reach \<sigma>" and "mode \<sigma> = Prompt"
    and "p < 0 \<or> (0 < p \<and> p \<notin> children \<sigma>)"
    and "runs_ok (insert p (children \<sigma>)) evs"
    and "bg = 0 \<or> bg = 1"
    and "launch_parent line bg p evs (sh \<sigma>) = Inr s'"
  shows "\<exists>C. reach \<lparr>sh = s', mode = Prompt, children = C\<rparr>"
  using assms(3)
proof
  assume neg: "p < 0"
  then have a: "addjob (sh \<sigma>) p (bg + 1) line = (0, sh \<sigma>)" by (simp add: addjob_def)
  from fgpid_prompt [OF reach_inv [OF assms(1)] assms(2)] neg
  have "p \<noteq> fgpid (job_list (sh \<sigma>))" by simp
  then have "wait_fg p evs (sh \<sigma>) = Inr (sh \<sigma>)" by (rule wait_fg_other)
  with assms(6) a have "job_list s' = job_list (sh \<sigma>)" "nextjid s' = nextjid (sh \<sigma>)"
    by (auto simp: launch_parent_def Let_def split: if_splits)
  from reach_other [OF assms(1) this assms(2)] show ?thesis .
next
  assume pos: "0 < p \<and> p \<notin> children \<sigma>"
  from assms(5) show ?thesis
  proof
    assume "bg = 1"
    with assms(6) have "launch_parent line 1 p evs (sh \<sigma>) = Inr s'" by simp
    from reach.launch_bg [OF assms(1,2) _ _ this] pos show ?thesis by blast
  next
    assume z: "bg = 0"
    let ?\<sigma>1 = "\<lparr>sh = snd (addjob (sh \<sigma>) p (0 + 1) line), mode = WaitFg p,
        children = insert p (children \<sigma>)\<rparr>"
    from reach.launch_fg [OF assms(1,2), of p line] pos have r1: "reach ?\<sigma>1" by blast
    from assms(6) z have w: "wait_fg p evs (sh ?\<sigma>1) = Inr s'"
      by (simp add: launch_parent_def Let_def)
    from reach_wait [OF r1 _ _ w] assms(4) show ?thesis by simp
  qed
qed

lemma reach_fg:
  assumes "reach \<sigma>" and "mode \<sigma> = Prompt" and "fg_handler tok w (sh \<sigma>) = Inr s'"
  shows "\<exists>C. reach \<lparr>sh = s', mode = Prompt, children = C\<rparr>"
proof -
  from assms(3) obtain s1 r where b: "fg_begin tok (sh \<sigma>) = Inr (s1, r)"
    by (auto simp: fg_handler_def split: sum.splits)
  show ?thesis
  proof (cases r)
    case None
    with b assms(3) have s: "s' = s1" by (simp add: fg_handler_def)
    from b None have "job_list s1 = job_list (sh \<sigma>)" "nextjid s1 = nextjid (sh \<sigma>)"
      by (auto simp: fg_begin_def unix_error_def split: list.splits option.splits)
    from reach_other [OF assms(1) this assms(2)] s show ?thesis by simp
  next
    case (Some i)
    with b assms(3) have s: "s' = fg_end i w s1" by (simp add: fg_handler_def)
    from reach.fg_start [OF assms(1,2) b [unfolded Some]]
    have r1: "reach (\<sigma>\<lparr>sh := s1, mode := WaitPid i\<rparr>)" .
    from reach.fg_done [OF r1, of i w] s show ?thesis by auto
  qed
qed

text \<open>
  Every call of \<^verbatim>\<open>eval\<close> that returns to the read loop leads from a reachable state at
  the prompt to a reachable state at the prompt, when \<^verbatim>\<open>fork\<close> fails or returns a
  fresh pid and the handler runs during the foreground wait report children only.
\<close>

lemma eval_reach:
  assumes "reach \<sigma>" and "mode \<sigma> = Prompt"
    and "fork_ret os < 0 \<or> (0 < fork_ret os \<and> fork_ret os \<notin> children \<sigma>)"
    and "runs_ok (insert (fork_ret os) (children \<sigma>)) (sigchlds os)"
    and "eval line os tok0 (sh \<sigma>) = Inr s'"
  shows "\<exists>C. reach \<lparr>sh = s', mode = Prompt, children = C\<rparr>"
proof -
  obtain bg tok msg where p: "parseline (Some line) tok0 = (bg, tok, msg)"
    by (cases "parseline (Some line) tok0") auto
  define s where "s = (if msg = [] then sh \<sigma> else (sh \<sigma>)\<lparr>errs := errs (sh \<sigma>) @ [msg]\<rparr>)"
  have sj: "job_list s = job_list (sh \<sigma>)" "nextjid s = nextjid (sh \<sigma>)"
    by (simp_all add: s_def)
  from reach.other [OF assms(1) sj] have rs: "reach (\<sigma>\<lparr>sh := s\<rparr>)" .
  have ms: "mode (\<sigma>\<lparr>sh := s\<rparr>) = Prompt" "sh (\<sigma>\<lparr>sh := s\<rparr>) = s"
    "children (\<sigma>\<lparr>sh := s\<rparr>) = children \<sigma>"
    using assms(2) by simp_all
  have "eval line os tok0 (sh \<sigma>) =
     (if bg = - 1 then Inr s
      else if argv tok = [] then Inr s
      else
        (case builtins tok of
           BUILTIN_QUIT \<Rightarrow> Inl (Exit 0)
         | BUILTIN_JOBS \<Rightarrow>
             (case outfile tok of
                Some f \<Rightarrow>
                  if \<not> open_ok os then Inr (unix_error ''error opening file'' s)
                  else
                    (case listjobs (job_list s) (write_failing os) [] of
                       Inl e \<Rightarrow> Inl e
                     | Inr txt \<Rightarrow> Inr (s\<lparr>files := files s @ [(f, txt)]\<rparr>))
              | None \<Rightarrow>
                  (case listjobs (job_list s) (write_failing os) (out s) of
                     Inl e \<Rightarrow> Inl e
                   | Inr txt \<Rightarrow> Inr (s\<lparr>out := txt\<rparr>)))
         | BUILTIN_BG \<Rightarrow> bg_handler tok s
         | BUILTIN_FG \<Rightarrow> fg_handler tok (wait_status os) s
         | BUILTIN_NONE \<Rightarrow>
             (if fork_ret os = 0 then Inl ChildImage
              else launch_parent line bg (fork_ret os) (sigchlds os)
                     (if fork_ret os < 0 then unix_error ''error with fork'' s else s))))"
    unfolding s_def using p by (simp add: eval_def Let_def split: builtins_t.splits)
  with assms(5) have ev: "(if bg = - 1 then Inr s
      else if argv tok = [] then Inr s
      else
        (case builtins tok of
           BUILTIN_QUIT \<Rightarrow> Inl (Exit 0)
         | BUILTIN_JOBS \<Rightarrow>
             (case outfile tok of
                Some f \<Rightarrow>
                  if \<not> open_ok os then Inr (unix_error ''error opening file'' s)
                  else
                    (case listjobs (job_list s) (write_failing os) [] of
                       Inl e \<Rightarrow> Inl e
                     | Inr txt \<Rightarrow> Inr (s\<lparr>files := files s @ [(f, txt)]\<rparr>))
              | None \<Rightarrow>
                  (case listjobs (job_list s) (write_failing os) (out s) of
                     Inl e \<Rightarrow> Inl e
                   | Inr txt \<Rightarrow> Inr (s\<lparr>out := txt\<rparr>)))
         | BUILTIN_BG \<Rightarrow> bg_handler tok s
         | BUILTIN_FG \<Rightarrow> fg_handler tok (wait_status os) s
         | BUILTIN_NONE \<Rightarrow>
             (if fork_ret os = 0 then Inl ChildImage
              else launch_parent line bg (fork_ret os) (sigchlds os)
                     (if fork_ret os < 0 then unix_error ''error with fork'' s else s)))) = Inr s'"
    by simp
  show ?thesis
  proof (cases "bg = - 1 \<or> argv tok = []")
    case True
    with ev have "s' = s" by (auto split: if_splits)
    with reach_other [OF assms(1) sj assms(2)] show ?thesis by simp
  next
    case False
    with parseline_ret [OF p] have bg: "bg = 0 \<or> bg = 1" by auto
    show ?thesis
    proof (cases "builtins tok")
      case BUILTIN_NONE
      with ev False have l: "fork_ret os \<noteq> 0"
        and "launch_parent line bg (fork_ret os) (sigchlds os)
               (if fork_ret os < 0 then unix_error ''error with fork'' s else s) = Inr s'"
        by (auto split: if_splits)
      then have lp0: "launch_parent line bg (fork_ret os) (sigchlds os)
               (if fork_ret os < 0 then unix_error ''error with fork'' s else s) = Inr s'"
        by simp
      define s1 where "s1 = (if fork_ret os < 0 then unix_error ''error with fork'' s else s)"
      have s1: "job_list s1 = job_list (sh \<sigma>)" "nextjid s1 = nextjid (sh \<sigma>)"
        using sj by (simp_all add: s1_def unix_error_def)
      from lp0 have lp: "launch_parent line bg (fork_ret os) (sigchlds os) s1 = Inr s'"
        by (simp add: s1_def)
      from reach.other [OF assms(1) s1] have r1: "reach (\<sigma>\<lparr>sh := s1\<rparr>)" .
      from reach_launch [OF r1 _ _ _ bg, of "fork_ret os" "sigchlds os" line s'] assms(2,3,4) lp
      show ?thesis by simp
    next
      case BUILTIN_QUIT
      with ev False show ?thesis by (auto split: if_splits)
    next
      case BUILTIN_JOBS
      with ev False have "job_list s' = job_list s" "nextjid s' = nextjid s"
        by (auto simp: unix_error_def split: option.splits sum.splits if_splits)
      with sj have "job_list s' = job_list (sh \<sigma>)" "nextjid s' = nextjid (sh \<sigma>)" by simp_all
      from reach_other [OF assms(1) this assms(2)] show ?thesis .
    next
      case BUILTIN_BG
      with ev False have "bg_handler tok s = Inr s'" by (auto split: if_splits)
      with reach.bg [OF rs ms(1), of tok s'] ms have "reach (\<sigma>\<lparr>sh := s'\<rparr>)" by simp
      then have "reach \<lparr>sh = s', mode = Prompt, children = children \<sigma>\<rparr>"
        using assms(2) by (cases \<sigma>) simp
      then show ?thesis by blast
    next
      case BUILTIN_FG
      with ev False have "fg_handler tok (wait_status os) s = Inr s'" by (auto split: if_splits)
      with reach_fg [OF rs ms(1), of tok "wait_status os" s'] ms show ?thesis by simp
    qed
  qed
qed

subsection \<open>maxjid is the largest job id in the table\<close>

lemma maxjid_loop_Max:
  "maxjid_loop jl i mx = Max (insert mx {jid (jl ! k) | k. i \<le> k \<and> k < MAXJOBS})"
proof (induction jl i mx rule: maxjid_loop.induct)
  case (1 jl i mx)
  show ?case
  proof (cases "i < MAXJOBS")
    case False
    then have e: "{jid (jl ! k) | k. i \<le> k \<and> k < MAXJOBS} = {}" by auto
    have "maxjid_loop jl i mx = mx" using False by (subst maxjid_loop.simps) simp
    then show ?thesis by (simp only: e) simp
  next
    case True
    let ?S = "{jid (jl ! k) | k. Suc i \<le> k \<and> k < MAXJOBS}"
    have fin: "finite ?S" by simp
    have split: "{jid (jl ! k) | k. i \<le> k \<and> k < MAXJOBS} = insert (jid (jl ! i)) ?S"
      using True by (auto simp: le_less Suc_le_eq)
    have "maxjid_loop jl i mx =
        maxjid_loop jl (Suc i) (if jid (jl ! i) > mx then jid (jl ! i) else mx)"
      using True by (subst maxjid_loop.simps) simp
    also have "\<dots> = Max (insert (if jid (jl ! i) > mx then jid (jl ! i) else mx) ?S)"
      using "1.IH" [OF True] by simp
    also have "\<dots> = Max (insert mx (insert (jid (jl ! i)) ?S))"
    proof (cases "jid (jl ! i) > mx")
      case gt: True
      have "Max (insert mx (insert (jid (jl ! i)) ?S)) = max mx (Max (insert (jid (jl ! i)) ?S))"
        using fin by simp
      also have "\<dots> = Max (insert (jid (jl ! i)) ?S)"
      proof -
        have "jid (jl ! i) \<le> Max (insert (jid (jl ! i)) ?S)"
          using fin by (intro Max_ge) simp_all
        with gt have "mx \<le> Max (insert (jid (jl ! i)) ?S)" by linarith
        then show ?thesis by (rule max_absorb2)
      qed
      finally show ?thesis using gt by simp
    next
      case le: False
      have "Max (insert mx (insert (jid (jl ! i)) ?S)) = Max (insert (jid (jl ! i)) (insert mx ?S))"
        by (simp add: insert_commute)
      also have "\<dots> = max (jid (jl ! i)) (Max (insert mx ?S))"
        using fin by simp
      also have "\<dots> = Max (insert mx ?S)"
      proof -
        have "mx \<le> Max (insert mx ?S)"
          using fin by (intro Max_ge) simp_all
        with le have "jid (jl ! i) \<le> Max (insert mx ?S)" by linarith
        then show ?thesis by (rule max_absorb2)
      qed
      finally show ?thesis using le by simp
    qed
    finally show ?thesis by (simp add: split)
  qed
qed

lemma maxjid_Max: "maxjid jl = Max (insert 0 {jid (jl ! k) | k. k < MAXJOBS})"
  by (simp add: maxjid_def maxjid_loop_Max)

end
